theory Spec2Isabelle
  imports Main "HOL-Library.Sublist"
begin

section \<open>Values, validation results and validators\<close>

text \<open>
  JavaScript values as far as the wrapper looks at them. An object literal is an ordered
  property list. \<open>DataValidationResult\<close> is the class the profiling edition of the
  wrapper tests a resolver's output against with \<open>instanceof\<close>; it is imported from
  \<open>./helpers\<close>, and only its two properties \<open>data\<close> and \<open>errors\<close> are read
  (\<open>errors\<close> may be undefined, which the source guards against).
\<close>

datatype js_value =
    Undefined
  | Null
  | Bool bool
  | Num int
  | Str string
  | DataValidationResult js_value "(string \<times> js_value) list list option"

type_synonym js_object = "(string \<times> js_value) list"

text \<open>Reading a property: \<open>error.message\<close> is \<open>undefined\<close> when the property is missing.\<close>

definition property :: "js_object \<Rightarrow> string \<Rightarrow> js_value" where
  "property obj k = (case map_of obj k of None \<Rightarrow> Undefined | Some v \<Rightarrow> v)"

text \<open>A thrown value: an \<open>Error\<close> with its message and its stack.\<close>

datatype js_error = Error string string

text \<open>
  A resolver argument, as far as the scan of the arguments reads it:
  \<open>arg.__graphQLValidity\<close> (schema-wrapper.ts), \<open>arg.rootValue.__graphQLValidity\<close>,
  \<open>arg.parentType\<close> and \<open>arg.path\<close> (the profiling edition). The list of arguments
  holds \<open>None\<close> for a falsy argument. One world (below) is one request, so a truthy
  \<open>__graphQLValidity\<close> is a reference to the validity object of that request.
\<close>

record arg =
  has_graphQLValidity :: bool
  rootValue_has_graphQLValidity :: bool
  parentType :: "string option"
  path :: "string list option"

type_synonym args = "arg option list"

text \<open>
  A validator is an asynchronous function of the resolver's arguments that resolves to a
  list of validation results or rejects. Its name stands for the identity of the function.
\<close>

record validator =
  vname :: string
  vcall :: "args \<Rightarrow> js_error + js_object list"

section \<open>The validator registry and the selection of validators\<close>

type_synonym definitions = "string \<Rightarrow> validator list option"

text \<open>\<open>x || []\<close> for a list that may be undefined (an array, even an empty one, is truthy).\<close>

definition or_empty :: "'a list option \<Rightarrow> 'a list" where
  "or_empty x = (case x of None \<Rightarrow> [] | Some xs \<Rightarrow> xs)"

text \<open>\<open>FieldValidationDefinitions[k] || []\<close>\<close>

definition lookup :: "definitions \<Rightarrow> string \<Rightarrow> validator list" where
  "lookup defs k = or_empty (defs k)"

text \<open>String concatenation coerces an undefined \<open>parentTypeName\<close> to \<open>undefined\<close>.\<close>

definition to_string :: "string option \<Rightarrow> string" where
  "to_string s = (case s of None \<Rightarrow> ''undefined'' | Some x \<Rightarrow> x)"

text \<open>
  \<open>getValidators(field, parentTypeName)\<close> of schema-wrapper.ts; it reads \<open>field.type\<close>
  and \<open>field.name\<close>. The first component is \<open>validators\<close>, the second
  \<open>globalValidators\<close>.
\<close>

definition getValidators ::
  "definitions \<Rightarrow> string \<Rightarrow> string \<Rightarrow> string option \<Rightarrow> validator list \<times> validator list" where
  "getValidators defs field_type field_name parentTypeName =
     (lookup defs ''*'' @ lookup defs field_type
        @ lookup defs (to_string parentTypeName @ '':'' @ field_name),
      lookup defs ''$'')"

text \<open>
  The selection of the simplified edition (second document of schema-wrapper.ts), which
  keeps one list for the whole process and never looks for a request context:
  \<open>FieldValidationDefinitions[field.type] || FieldValidationDefinitions[parent:name] || []\<close>.
\<close>

definition simplified_validators :: "definitions \<Rightarrow> string \<Rightarrow> string \<Rightarrow> string \<Rightarrow> validator list" where
  "simplified_validators defs field_type field_name parentTypeName =
     (case defs field_type of
        Some vs \<Rightarrow> vs
      | None \<Rightarrow> (case defs (parentTypeName @ '':'' @ field_name) of
                   Some vs \<Rightarrow> vs
                 | None \<Rightarrow> []))"

section \<open>The request validation context and the response merger\<close>

record profile =
  profile_name :: string
  validation :: int
  execution :: int
  fieldsExecution :: int
  totalExecution :: int

record profiling_entry =
  entry_path :: "string list option"
  entry_profile :: profile

text \<open>
  The object \<open>__graphQLValidity\<close>: \<open>___validationResults\<close>,
  \<open>___globalValidationResults\<close> (\<open>undefined\<close> until the global validators were
  started) and \<open>___profilingData\<close>.
\<close>

record validity =
  validationResults :: "js_object list option"
  globalValidationResults :: "js_object list option"
  profilingData :: "profiling_entry list option"

record response =
  response_data :: js_value
  response_errors :: "js_object list option"

definition message_only :: "js_object \<Rightarrow> js_object" where
  "message_only error = [(''message'', property error ''message'')]"

text \<open>
  \<open>getResponseValidationResults(validity, data)\<close>. Calling \<open>map\<close> on an undefined
  \<open>___validationResults\<close> throws.
\<close>

definition getResponseValidationResults :: "validity \<Rightarrow> response \<Rightarrow> js_error + response" where
  "getResponseValidationResults v data =
     (let globals = or_empty (globalValidationResults v) in
      case validationResults v of
        None \<Rightarrow> Inl (Error ''Cannot read property map of undefined'' [])
      | Some locals \<Rightarrow>
          Inr (data\<lparr>response_errors :=
                 Some (or_empty (response_errors data)
                       @ map message_only locals
                       @ map message_only globals)\<rparr>))"

text \<open>
  \<open>getValidationResults\<close>: creates \<open>___validationResults\<close> when it is missing and
  returns the two lists; here the updated validity object and the value read from
  \<open>___globalValidationResults\<close>.
\<close>

definition getValidationResults :: "validity \<Rightarrow> validity \<times> js_object list option" where
  "getValidationResults v =
     (let v' = (case validationResults v of
                  None \<Rightarrow> v\<lparr>validationResults := Some []\<rparr>
                | Some _ \<Rightarrow> v)
      in (v', globalValidationResults v'))"

text \<open>
  \<open>Array.prototype.push.apply(list, results)\<close> on the list held by the validity object.
\<close>

definition push_local :: "js_object list \<Rightarrow> validity \<Rightarrow> validity" where
  "push_local rs v = v\<lparr>validationResults := map_option (\<lambda>l. l @ rs) (validationResults v)\<rparr>"

definition push_global :: "js_object list \<Rightarrow> validity \<Rightarrow> validity" where
  "push_global rs v =
     v\<lparr>globalValidationResults := map_option (\<lambda>g. g @ rs) (globalValidationResults v)\<rparr>"

section \<open>Clock, correlation ids, console\<close>

text \<open>
  What the wrapper reads from and writes to outside the request: \<open>Date.now()\<close>, whose
  successive values are the sequence \<open>clock\<close>; \<open>uuid()\<close> of \<open>./uuid\<close>, whose
  successive values are the sequence \<open>uuids\<close>; and the lines written by
  \<open>console.error\<close>.
\<close>

record effects =
  clock :: "nat \<Rightarrow> int"
  clock_reads :: nat
  uuids :: "nat \<Rightarrow> string"
  uuid_calls :: nat
  console :: "string list"

definition Date_now :: "effects \<Rightarrow> int \<times> effects" where
  "Date_now s = (clock s (clock_reads s), s\<lparr>clock_reads := Suc (clock_reads s)\<rparr>)"

definition uuid :: "effects \<Rightarrow> string \<times> effects" where
  "uuid s = (uuids s (uuid_calls s), s\<lparr>uuid_calls := Suc (uuid_calls s)\<rparr>)"

definition console_error :: "string \<Rightarrow> effects \<Rightarrow> effects" where
  "console_error line s = s\<lparr>console := console s @ [line]\<rparr>"

fun stack_of :: "js_error \<Rightarrow> string" where
  "stack_of (Error m st) = st"

fun message_of :: "js_error \<Rightarrow> string" where
  "message_of (Error m st) = m"

text \<open>\<open>onUnhandledError\<close>, the default error wrapper.\<close>

definition internal_error_message :: "string \<Rightarrow> string" where
  "internal_error_message cid =
     ''An internal error occured, with following id:'' @ cid @ '', please contact Administrator!''"

definition onUnhandledError :: "js_error \<Rightarrow> effects \<Rightarrow> js_error \<times> effects" where
  "onUnhandledError error s =
     (let (cid, s1) = uuid s;
          s2 = console_error (''Unhandled error occured with id:'' @ cid @ '', stack:''
                                @ stack_of error) s1
      in (Error (internal_error_message cid) [], s2))"

section \<open>Configuration, schema entities and wrapping\<close>

record ValidityConfig =
  wrapErrors :: bool
  enableProfiling :: bool
  unhandledErrorWrapper :: "(js_error \<Rightarrow> effects \<Rightarrow> js_error \<times> effects) option"
  config_parentTypeName :: "string option"

text \<open>
  The two editions of the wrapper in the repository: schema-wrapper.ts (the context hangs
  on a request-shaped argument, the parent type name is fixed when the field is wrapped)
  and the edition with profiling (the context hangs on \<open>rootValue\<close>, the parent type
  name is read from the arguments, a \<open>DataValidationResult\<close> is unwrapped).
\<close>

datatype edition = Schema_wrapper | Index

text \<open>
  A resolver is the function of the schema (\<open>Plain\<close>) or the asynchronous function that
  \<open>wrapField\<close> installs, which closes over the configuration, the field's type and
  name, the parent type name and the function it replaced.
\<close>

datatype resolver =
    Plain "args \<Rightarrow> js_error + js_value"
  | Wrapped edition ValidityConfig string string "string option" resolver

fun layers :: "resolver \<Rightarrow> nat" where
  "layers (Plain f) = 0"
| "layers (Wrapped ed c ty nm p r) = Suc (layers r)"

text \<open>
  Each module declares its own \<open>Processed = Symbol()\<close>, so a field or a type carries
  one marker for each of them: \<open>Processed f ed\<close> is \<open>f[Processed]\<close> as the module
  \<open>ed\<close> reads it.
\<close>

record field =
  field_name :: string
  field_type :: string
  resolve :: "resolver option"
  Processed :: "edition \<Rightarrow> bool"

text \<open>
  Fields are objects that \<open>wrapField\<close> changes in place and that types, schemas and
  the caller share, so they live in a store and are reached by reference.
\<close>

type_synonym ref = nat

type_synonym store = "ref \<Rightarrow> field"

record object_type =
  type_name :: string
  getFields :: "(string \<times> ref) list option"
  type_Processed :: "edition \<Rightarrow> bool"

type_synonym schema = "(string \<times> object_type) list"

datatype entity = GraphQLSchema schema | GraphQLObjectType object_type | Field ref

definition truthy :: "string option \<Rightarrow> bool" where
  "truthy s = (case s of None \<Rightarrow> False | Some x \<Rightarrow> x \<noteq> [])"

text \<open>
  \<open>wrapField\<close>. In schema-wrapper.ts the third parameter is the parent type name; the
  edition with profiling has no such parameter and its closure holds no parent type name.
\<close>

definition wrapField ::
  "edition \<Rightarrow> ref \<Rightarrow> ValidityConfig \<Rightarrow> string option \<Rightarrow> store \<Rightarrow> store" where
  "wrapField ed a config parentTypeName h =
     (let field = h a;
          parentTypeName =
            (case ed of
               Schema_wrapper \<Rightarrow>
                 (if truthy parentTypeName then parentTypeName else config_parentTypeName config)
             | Index \<Rightarrow> None)
      in case resolve field of
           None \<Rightarrow> h
         | Some r \<Rightarrow>
             if Processed field ed then h
             else h(a := field\<lparr>resolve := Some (Wrapped ed config (field_type field)
                                                  (field_name field) parentTypeName r),
                               Processed := (Processed field)(ed := True)\<rparr>))"

definition wrapType :: "edition \<Rightarrow> object_type \<Rightarrow> ValidityConfig \<Rightarrow> store \<Rightarrow> store" where
  "wrapType ed ty config h =
     (if type_Processed ty ed then h
      else case getFields ty of
             None \<Rightarrow> h
           | Some fs \<Rightarrow>
               foldl (\<lambda>h (fieldName, a). wrapField ed a config (Some (type_name ty)) h) h fs)"

definition wrapSchema :: "edition \<Rightarrow> schema \<Rightarrow> ValidityConfig \<Rightarrow> store \<Rightarrow> store" where
  "wrapSchema ed types config h =
     foldl (\<lambda>h (typeName, ty). wrapType ed ty config h) h types"

text \<open>The defaults \<open>wrapResolvers\<close> fills in before it dispatches on the entity.\<close>

definition default_config :: "edition \<Rightarrow> ValidityConfig option \<Rightarrow> ValidityConfig" where
  "default_config ed config =
     (case config of
        None \<Rightarrow> \<lparr>wrapErrors = False, enableProfiling = False,
                  unhandledErrorWrapper = Some onUnhandledError,
                  config_parentTypeName = (case ed of Schema_wrapper \<Rightarrow> Some [] | Index \<Rightarrow> None)\<rparr>
      | Some c \<Rightarrow>
          c\<lparr>unhandledErrorWrapper :=
               (case unhandledErrorWrapper c of
                  None \<Rightarrow> Some onUnhandledError
                | Some wrapper \<Rightarrow> Some wrapper),
            config_parentTypeName :=
               (case ed of
                  Schema_wrapper \<Rightarrow>
                    (if truthy (config_parentTypeName c) then config_parentTypeName c
                     else Some [])
                | Index \<Rightarrow> config_parentTypeName c)\<rparr>)"

definition wrapResolvers ::
  "edition \<Rightarrow> entity \<Rightarrow> ValidityConfig option \<Rightarrow> store \<Rightarrow> store" where
  "wrapResolvers ed ent config h =
     (let config = default_config ed config in
      case ent of
        GraphQLSchema s \<Rightarrow> wrapSchema ed s config h
      | GraphQLObjectType ty \<Rightarrow> wrapType ed ty config h
      | Field a \<Rightarrow> wrapField ed a config None h)"


section \<open>Observations on the wrapping\<close>

text \<open>
  A field that a call of \<open>wrapField\<close> of module \<open>ed\<close> changes: it has a resolver
  and not the marker of \<open>ed\<close>.
\<close>

definition wrappable :: "edition \<Rightarrow> field \<Rightarrow> bool" where
  "wrappable ed f \<longleftrightarrow> resolve f \<noteq> None \<and> \<not> Processed f ed"

text \<open>The number of wrappers around the original resolver of a field.\<close>

definition field_layers :: "field \<Rightarrow> nat" where
  "field_layers f = (case resolve f of None \<Rightarrow> 0 | Some r \<Rightarrow> layers r)"

text \<open>
  The fields that a call of \<open>wrapResolvers\<close> on an entity reaches, in the order of the
  calls of \<open>wrapField\<close>; then a sequence of calls of \<open>wrapResolvers\<close> on entities that
  may share fields, and the fields it reaches.
\<close>

definition type_targets :: "edition \<Rightarrow> object_type \<Rightarrow> ref list" where
  "type_targets ed ty =
     (if type_Processed ty ed then []
      else case getFields ty of None \<Rightarrow> [] | Some fs \<Rightarrow> map snd fs)"

fun targets :: "edition \<Rightarrow> entity \<Rightarrow> ref list" where
  "targets ed (Field a) = [a]"
| "targets ed (GraphQLObjectType ty) = type_targets ed ty"
| "targets ed (GraphQLSchema s) = concat (map (\<lambda>(typeName, ty). type_targets ed ty) s)"

definition wrap_all :: "edition \<Rightarrow> (entity \<times> ValidityConfig option) list \<Rightarrow> store \<Rightarrow> store" where
  "wrap_all ed calls h = foldl (\<lambda>h (ent, config). wrapResolvers ed ent config h) h calls"

definition reached :: "edition \<Rightarrow> (entity \<times> ValidityConfig option) list \<Rightarrow> ref list" where
  "reached ed calls = concat (map (\<lambda>(ent, config). targets ed ent) calls)"

text \<open>
  The calls of \<open>wrapField\<close> that a call of \<open>wrapResolvers\<close> makes, with the
  configuration and the parent type name of each.
\<close>

definition wrap_refs ::
  "edition \<Rightarrow> (ref \<times> ValidityConfig \<times> string option) list \<Rightarrow> store \<Rightarrow> store" where
  "wrap_refs ed ps h = foldl (\<lambda>h (a, c, p). wrapField ed a c p h) h ps"

definition type_steps ::
  "edition \<Rightarrow> object_type \<Rightarrow> ValidityConfig \<Rightarrow> (ref \<times> ValidityConfig \<times> string option) list" where
  "type_steps ed ty c = map (\<lambda>a. (a, c, Some (type_name ty))) (type_targets ed ty)"

fun steps_of ::
  "edition \<Rightarrow> entity \<Rightarrow> ValidityConfig \<Rightarrow> (ref \<times> ValidityConfig \<times> string option) list" where
  "steps_of ed (Field a) c = [(a, c, None)]"
| "steps_of ed (GraphQLObjectType ty) c = type_steps ed ty c"
| "steps_of ed (GraphQLSchema s) c = concat (map (\<lambda>(typeName, ty). type_steps ed ty c) s)"

text \<open>The second field is the first with one wrapper of module \<open>ed\<close> and its marker.\<close>

definition wrapped_once :: "edition \<Rightarrow> field \<Rightarrow> field \<Rightarrow> bool" where
  "wrapped_once ed f f' \<longleftrightarrow>
     (\<exists>c p r. resolve f = Some r
            \<and> f' = f\<lparr>resolve := Some (Wrapped ed c (field_type f) (field_name f) p r),
                      Processed := (Processed f)(ed := True)\<rparr>)"


section \<open>Invocations of a wrapped resolver\<close>

text \<open>
  The function installed by \<open>wrapField\<close> is asynchronous: it runs until it awaits a
  validator or the original resolver, and continues when the awaited promise has settled;
  other invocations of the same request run in between. An invocation is a task with
  the variables of the function body and the point where it is suspended; the world is
  what all invocations of one request share. The trace records which functions were
  called, by which task, in which order.
\<close>

datatype event =
    Began_global_run nat
  | Called_global nat string
  | Called_local nat string
  | Called_resolve nat

record world =
  FieldValidationDefinitions :: definitions
  graphQLValidity :: validity
  env :: effects
  trace :: "event list"

text \<open>
  Where a task is suspended: before its call; at the \<open>await\<close> of a global or of a
  local validator, with the validators the loop has still to call; at the \<open>await\<close>
  of the original resolver; or settled, rejected (\<open>Inl\<close>) or resolved (\<open>Inr\<close>).
\<close>

datatype phase =
    Not_invoked
  | Await_global validator "validator list"
  | Await_local validator "validator list"
  | Await_resolve
  | Settled "js_error + js_value"

record task =
  t_edition :: edition
  t_config :: ValidityConfig
  t_field_type :: string
  t_field_name :: string
  t_parentTypeName :: "string option"
  t_resolve :: "args \<Rightarrow> js_error + js_value"
  t_args :: args
  phase :: phase
  pst :: int
  vet :: int
  found_validity :: bool
  ast :: "arg option"
  validators :: "validator list"

text \<open>
  Calling the resolver of a wrapped field with arguments starts a task around the original
  resolver. A wrapper of one module around the wrapper of the other is given no task.
\<close>

fun invocation :: "resolver \<Rightarrow> args \<Rightarrow> task option" where
  "invocation (Wrapped ed c ty nm p (Plain f)) as =
     Some \<lparr>t_edition = ed, t_config = c, t_field_type = ty, t_field_name = nm,
           t_parentTypeName = p, t_resolve = f, t_args = as, phase = Not_invoked,
           pst = 0, vet = 0, found_validity = False, ast = None, validators = []\<rparr>"
| "invocation r as = None"

definition log_event :: "event \<Rightarrow> world \<Rightarrow> world" where
  "log_event e w = w\<lparr>trace := trace w @ [e]\<rparr>"

text \<open>
  The scan of the arguments. schema-wrapper.ts stops at the first argument that carries
  \<open>__graphQLValidity\<close>; the edition with profiling goes through all arguments and keeps
  the last match of each of its two tests.
\<close>

fun find_request :: "args \<Rightarrow> arg option" where
  "find_request [] = None"
| "find_request (None # as) = find_request as"
| "find_request (Some a # as) = (if has_graphQLValidity a then Some a else find_request as)"

fun scan_args :: "args \<Rightarrow> bool \<times> arg option \<times> string option \<Rightarrow> bool \<times> arg option \<times> string option" where
  "scan_args [] acc = acc"
| "scan_args (None # as) acc = scan_args as acc"
| "scan_args (Some a # as) (found, info, parentTypeName) =
     scan_args as
       (found \<or> rootValue_has_graphQLValidity a,
        if truthy (parentType a) then Some a else info,
        if truthy (parentType a) then parentType a else parentTypeName)"

text \<open>The \<open>catch\<close> block around the whole body.\<close>

definition catch_block :: "world \<Rightarrow> task \<Rightarrow> js_error \<Rightarrow> world \<times> task" where
  "catch_block w t e =
     (if wrapErrors (t_config t) then
        (case unhandledErrorWrapper (t_config t) of
           None \<Rightarrow>
             (w, t\<lparr>phase := Settled (Inl (Error ''config.unhandledErrorWrapper is not a function'' []))\<rparr>)
         | Some wrapper \<Rightarrow>
             (let (e', s) = wrapper e (env w)
              in (w\<lparr>env := s\<rparr>, t\<lparr>phase := Settled (Inl e')\<rparr>)))
      else (w, t\<lparr>phase := Settled (Inl e)\<rparr>))"

text \<open>
  After the validators: the edition with profiling reads the clock (\<open>vet\<close>); then the
  original resolver is called and awaited.
\<close>

definition call_resolve :: "nat \<Rightarrow> world \<Rightarrow> task \<Rightarrow> world \<times> task" where
  "call_resolve i w t =
     (let (w1, t1) = (case t_edition t of
                        Schema_wrapper \<Rightarrow> (w, t)
                      | Index \<Rightarrow> (let (n, s) = Date_now (env w)
                                  in (w\<lparr>env := s\<rparr>, t\<lparr>vet := n\<rparr>)))
      in (log_event (Called_resolve i) w1,
          t1\<lparr>phase := Await_resolve\<rparr>))"

text \<open>The two loops over validators, each up to its next \<open>await\<close>.\<close>

fun next_local :: "nat \<Rightarrow> world \<Rightarrow> task \<Rightarrow> validator list \<Rightarrow> world \<times> task" where
  "next_local i w t [] = call_resolve i w t"
| "next_local i w t (v # vs) =
     (log_event (Called_local i (vname v)) w, t\<lparr>phase := Await_local v vs\<rparr>)"

fun next_global :: "nat \<Rightarrow> world \<Rightarrow> task \<Rightarrow> validator list \<Rightarrow> world \<times> task" where
  "next_global i w t [] = next_local i w t (validators t)"
| "next_global i w t (v # vs) =
     (log_event (Called_global i (vname v)) w, t\<lparr>phase := Await_global v vs\<rparr>)"

text \<open>
  The block guarded by the context that was found, up to its first \<open>await\<close>: the lists
  of results and of validators are fetched, and when \<open>___globalValidationResults\<close> is
  falsy it is set to an empty array before the first global validator is called.
\<close>

definition validate :: "nat \<Rightarrow> world \<Rightarrow> task \<Rightarrow> string option \<Rightarrow> world \<times> task" where
  "validate i w t parentTypeName =
     (let (v, globalResults) = getValidationResults (graphQLValidity w);
          (vals, globalValidators) =
             getValidators (FieldValidationDefinitions w) (t_field_type t) (t_field_name t)
               parentTypeName;
          t' = t\<lparr>validators := vals\<rparr>
      in case globalResults of
           None \<Rightarrow>
             next_global i
               (log_event (Began_global_run i)
                  (w\<lparr>graphQLValidity := v\<lparr>globalValidationResults := Some []\<rparr>\<rparr>))
               t' globalValidators
         | Some g \<Rightarrow> next_local i (w\<lparr>graphQLValidity := v\<rparr>) t' vals)"

definition invoke :: "nat \<Rightarrow> world \<Rightarrow> task \<Rightarrow> world \<times> task" where
  "invoke i w t =
     (case t_edition t of
        Schema_wrapper \<Rightarrow>
          (case find_request (t_args t) of
             Some request \<Rightarrow> validate i w (t\<lparr>found_validity := True\<rparr>) (t_parentTypeName t)
           | None \<Rightarrow> call_resolve i w (t\<lparr>found_validity := False\<rparr>))
      | Index \<Rightarrow>
          (let (n, s) = Date_now (env w);
               w1 = w\<lparr>env := s\<rparr>;
               (found, info, parentTypeName) = scan_args (t_args t) (False, None, None);
               t1 = t\<lparr>pst := n, ast := info, found_validity := found\<rparr>
           in if found then validate i w1 t1 parentTypeName else call_resolve i w1 t1))"

text \<open>Unwrapping a \<open>DataValidationResult\<close> (edition with profiling only).\<close>

definition unwrap :: "world \<Rightarrow> task \<Rightarrow> js_value \<Rightarrow> world \<times> js_value" where
  "unwrap w t resolveOutput =
     (case resolveOutput of
        DataValidationResult d errs \<Rightarrow>
          (if found_validity t then
             (let (v, g) = getValidationResults (graphQLValidity w)
              in case errs of
                   Some (e # es) \<Rightarrow> w\<lparr>graphQLValidity := push_local (e # es) v\<rparr>
                 | _ \<Rightarrow> w\<lparr>graphQLValidity := v\<rparr>)
           else w,
           d)
      | _ \<Rightarrow> (w, resolveOutput))"

text \<open>\<open>storeProfilingInfo\<close>: \<open>push\<close> on an undefined \<open>___profilingData\<close> throws.\<close>

definition storeProfilingInfo :: "validity \<Rightarrow> string list option \<Rightarrow> profile \<Rightarrow> js_error + validity" where
  "storeProfilingInfo v p pr =
     (case profilingData v of
        None \<Rightarrow> Inl (Error ''Cannot read property push of undefined'' [])
      | Some pd \<Rightarrow> Inr (v\<lparr>profilingData := Some (pd @ [\<lparr>entry_path = p, entry_profile = pr\<rparr>])\<rparr>))"

text \<open>
  The inner \<open>try\<close> around the profiling; reading \<open>ast.path\<close> throws when no argument
  had a \<open>parentType\<close>.
\<close>

definition record_profile :: "world \<Rightarrow> task \<Rightarrow> int \<Rightarrow> world" where
  "record_profile w t eet =
     (if found_validity t \<and> enableProfiling (t_config t) then
        (case (case ast t of
                 None \<Rightarrow> Inl (Error ''Cannot read property path of undefined'' [])
               | Some a \<Rightarrow>
                   storeProfilingInfo (graphQLValidity w) (path a)
                     \<lparr>profile_name = t_field_name t,
                      validation = vet t - pst t,
                      execution = eet - pst t,
                      fieldsExecution = 0,
                      totalExecution = (eet - pst t) - (vet t - pst t)\<rparr>) of
           Inl err \<Rightarrow> w\<lparr>env := console_error (''Profiling failed! '' @ message_of err) (env w)\<rparr>
         | Inr v \<Rightarrow> w\<lparr>graphQLValidity := v\<rparr>)
      else w)"

text \<open>The value the edition with profiling returns for an output of the original resolver.\<close>

fun effective_result :: "js_value \<Rightarrow> js_value" where
  "effective_result (DataValidationResult d errs) = d"
| "effective_result v = v"

text \<open>What follows the \<open>await\<close> of the original resolver when it has resolved.\<close>

definition finish :: "world \<Rightarrow> task \<Rightarrow> js_value \<Rightarrow> world \<times> task" where
  "finish w t resolveOutput =
     (case t_edition t of
        Schema_wrapper \<Rightarrow> (w, t\<lparr>phase := Settled (Inr resolveOutput)\<rparr>)
      | Index \<Rightarrow>
          (let (w1, result) = unwrap w t resolveOutput;
               (eet, s) = Date_now (env w1);
               w2 = record_profile (w1\<lparr>env := s\<rparr>) t eet
           in (w2, t\<lparr>phase := Settled (Inr result)\<rparr>)))"

text \<open>
  One step of task \<open>i\<close>: from where it is suspended to its next \<open>await\<close> or its end.
  The awaited promise is the outcome of the awaited function on the task's arguments.
\<close>

definition step :: "nat \<Rightarrow> world \<Rightarrow> task \<Rightarrow> world \<times> task" where
  "step i w t =
     (case phase t of
        Not_invoked \<Rightarrow> invoke i w t
      | Await_global v rest \<Rightarrow>
          (case vcall v (t_args t) of
             Inl e \<Rightarrow> catch_block w t e
           | Inr rs \<Rightarrow>
               next_global i (w\<lparr>graphQLValidity := push_global rs (graphQLValidity w)\<rparr>) t rest)
      | Await_local v rest \<Rightarrow>
          (case vcall v (t_args t) of
             Inl e \<Rightarrow> catch_block w t e
           | Inr rs \<Rightarrow>
               next_local i (w\<lparr>graphQLValidity := push_local rs (graphQLValidity w)\<rparr>) t rest)
      | Await_resolve \<Rightarrow>
          (case t_resolve t (t_args t) of
             Inl e \<Rightarrow> catch_block w t e
           | Inr resolveOutput \<Rightarrow> finish w t resolveOutput)
      | Settled r \<Rightarrow> (w, t))"

text \<open>
  A request is a world and the invocations made during it; a schedule says which task
  continues next.
\<close>

type_synonym system = "world \<times> task list"

text \<open>What the trace says about one kind of call.\<close>

fun began_run :: "event \<Rightarrow> nat" where
  "began_run (Began_global_run i) = 1"
| "began_run e = 0"

definition began_runs :: "event list \<Rightarrow> nat" where
  "began_runs tr = sum_list (map began_run tr)"

fun global_call :: "event \<Rightarrow> string list" where
  "global_call (Called_global i n) = [n]"
| "global_call e = []"

definition global_calls :: "event list \<Rightarrow> string list" where
  "global_calls tr = concat (map global_call tr)"

fun local_call :: "nat \<Rightarrow> event \<Rightarrow> string list" where
  "local_call i (Called_local j n) = (if i = j then [n] else [])"
| "local_call i e = []"

definition local_calls :: "nat \<Rightarrow> event list \<Rightarrow> string list" where
  "local_calls i tr = concat (map (local_call i) tr)"

fun resolve_call :: "nat \<Rightarrow> event \<Rightarrow> nat" where
  "resolve_call i (Called_resolve j) = (if i = j then 1 else 0)"
| "resolve_call i e = 0"

definition resolve_calls :: "nat \<Rightarrow> event list \<Rightarrow> nat" where
  "resolve_calls i tr = sum_list (map (resolve_call i) tr)"

text \<open>Whether the scan of the arguments of a task finds the context.\<close>

definition finds_context :: "task \<Rightarrow> bool" where
  "finds_context t =
     (case t_edition t of
        Schema_wrapper \<Rightarrow> find_request (t_args t) \<noteq> None
      | Index \<Rightarrow> fst (scan_args (t_args t) (False, None, None)))"


definition settled :: "task \<Rightarrow> bool" where
  "settled t = (case phase t of Settled r \<Rightarrow> True | _ \<Rightarrow> False)"

definition in_global :: "task \<Rightarrow> bool" where
  "in_global t = (case phase t of Await_global v rest \<Rightarrow> True | _ \<Rightarrow> False)"

definition resume :: "nat \<Rightarrow> system \<Rightarrow> system" where
  "resume i s =
     (case s of
        (w, ts) \<Rightarrow>
          if i < length ts
          then (case step i w (ts ! i) of (w', t') \<Rightarrow> (w', ts[i := t']))
          else s)"

fun exec :: "nat list \<Rightarrow> system \<Rightarrow> system" where
  "exec [] s = s"
| "exec (i # sched) s = exec sched (resume i s)"


section \<open>Observations and invariants of a request\<close>

text \<open>The variables of a task that the loops over validators leave alone.\<close>

definition same_locals :: "task \<Rightarrow> task \<Rightarrow> bool" where
  "same_locals t' t \<longleftrightarrow>
     t_edition t' = t_edition t \<and> t_config t' = t_config t \<and> t_field_type t' = t_field_type t
   \<and> t_field_name t' = t_field_name t \<and> t_parentTypeName t' = t_parentTypeName t
   \<and> t_resolve t' = t_resolve t \<and> t_args t' = t_args t \<and> pst t' = pst t
   \<and> found_validity t' = found_validity t \<and> ast t' = ast t \<and> validators t' = validators t"

text \<open>Fields of a task that no step changes.\<close>

definition same_closure :: "task \<Rightarrow> task \<Rightarrow> bool" where
  "same_closure t' t \<longleftrightarrow>
     t_edition t' = t_edition t \<and> t_config t' = t_config t \<and> t_field_type t' = t_field_type t
   \<and> t_field_name t' = t_field_name t \<and> t_parentTypeName t' = t_parentTypeName t
   \<and> t_resolve t' = t_resolve t \<and> t_args t' = t_args t"

text \<open>The global validators registered, under the selector \<open>$\<close>.\<close>

definition global_validators :: "world \<Rightarrow> validator list" where
  "global_validators w = lookup (FieldValidationDefinitions w) ''$''"

text \<open>What the world says about the run of the global validators.\<close>

definition global_view :: "world \<Rightarrow> bool \<times> nat \<times> string list" where
  "global_view w =
     (globalValidationResults (graphQLValidity w) = None, began_runs (trace w),
      global_calls (trace w))"

text \<open>
  A request at its start: \<open>___globalValidationResults\<close> undefined, nothing called yet,
  no wrapped resolver invoked yet.
\<close>

definition fresh_request :: "system \<Rightarrow> bool" where
  "fresh_request s \<longleftrightarrow>
     globalValidationResults (graphQLValidity (fst s)) = None \<and> trace (fst s) = []
   \<and> (\<forall>t\<in>set (snd s). phase t = Not_invoked)"

text \<open>
  The invariant behind the single run of the global validators. About the world: no run
  was begun while \<open>___globalValidationResults\<close> is undefined, exactly one was begun
  once it is defined, and the global validators called so far are a prefix of the
  registered ones. About a task: while \<open>___globalValidationResults\<close> is undefined it
  has not passed the test of it; while it awaits a global validator, the validators called
  so far and those its loop has still to call make up the registered list. About the
  tasks: at most one of them awaits a global validator.
\<close>

definition world_ok :: "world \<Rightarrow> bool" where
  "world_ok w \<longleftrightarrow>
     (globalValidationResults (graphQLValidity w) = None \<longrightarrow>
        began_runs (trace w) = 0 \<and> global_calls (trace w) = [])
   \<and> (globalValidationResults (graphQLValidity w) \<noteq> None \<longrightarrow> began_runs (trace w) = 1)
   \<and> prefix (global_calls (trace w)) (map vname (global_validators w))"

definition task_ok :: "world \<Rightarrow> task \<Rightarrow> bool" where
  "task_ok w t \<longleftrightarrow>
     (globalValidationResults (graphQLValidity w) = None \<longrightarrow>
        \<not> in_global t \<and> (finds_context t \<longrightarrow> phase t = Not_invoked))
   \<and> (\<forall>v rest. phase t = Await_global v rest \<longrightarrow>
          suffix (v # rest) (global_validators w)
        \<and> global_calls (trace w) @ map vname rest = map vname (global_validators w))"

definition one_runner :: "task list \<Rightarrow> bool" where
  "one_runner ts \<longleftrightarrow>
     (\<forall>j k. j < length ts \<longrightarrow> k < length ts \<longrightarrow> in_global (ts ! j) \<longrightarrow> in_global (ts ! k) \<longrightarrow> j = k)"

definition once_invariant :: "system \<Rightarrow> bool" where
  "once_invariant s \<longleftrightarrow>
     world_ok (fst s) \<and> (\<forall>j<length (snd s). task_ok (fst s) (snd s ! j)) \<and> one_runner (snd s)"

text \<open>No registered global validator throws on the arguments of any invocation of the request.\<close>

definition no_global_throws :: "system \<Rightarrow> bool" where
  "no_global_throws s \<longleftrightarrow>
     (\<forall>j<length (snd s). \<forall>v\<in>set (global_validators (fst s)).
        \<exists>rs. vcall v (t_args (snd s ! j)) = Inr rs)"

text \<open>
  Once every invocation that found the context is past the run of the global validators,
  all of them have been called.
\<close>

definition run_complete :: "system \<Rightarrow> bool" where
  "run_complete s \<longleftrightarrow>
     (globalValidationResults (graphQLValidity (fst s)) \<noteq> None \<longrightarrow>
      (\<forall>j<length (snd s). \<not> in_global (snd s ! j)) \<longrightarrow>
        global_calls (trace (fst s)) = map vname (global_validators (fst s)))"

text \<open>
  The parent type name an invocation uses for the selector of its field: the one fixed
  when the field was wrapped (schema-wrapper.ts), or the \<open>parentType\<close> of the last
  argument that has one (edition with profiling). The validators it then selects.
\<close>

definition parent_of :: "task \<Rightarrow> string option" where
  "parent_of t =
     (case t_edition t of
        Schema_wrapper \<Rightarrow> t_parentTypeName t
      | Index \<Rightarrow> snd (snd (scan_args (t_args t) (False, None, None))))"

definition selected :: "world \<Rightarrow> task \<Rightarrow> validator list" where
  "selected w t =
     lookup (FieldValidationDefinitions w) ''*''
     @ lookup (FieldValidationDefinitions w) (t_field_type t)
     @ lookup (FieldValidationDefinitions w) (to_string (parent_of t) @ '':'' @ t_field_name t)"

text \<open>
  What the trace holds of task \<open>i\<close>, by the point where the task is suspended: the local
  validators called so far and those still to call make up the selected list, and the
  original resolver has been called once the task awaits it.
\<close>

definition expected_locals :: "task \<Rightarrow> string list" where
  "expected_locals t = (if finds_context t then map vname (validators t) else [])"

definition calls_ok :: "nat \<Rightarrow> world \<Rightarrow> task \<Rightarrow> bool" where
  "calls_ok i w t \<longleftrightarrow>
     (phase t \<noteq> Not_invoked \<longrightarrow> finds_context t \<longrightarrow> validators t = selected w t)
   \<and> (case phase t of
         Not_invoked \<Rightarrow> local_calls i (trace w) = [] \<and> resolve_calls i (trace w) = 0
       | Await_global v rest \<Rightarrow>
           finds_context t \<and> local_calls i (trace w) = [] \<and> resolve_calls i (trace w) = 0
       | Await_local v rest \<Rightarrow>
           finds_context t
         \<and> local_calls i (trace w) @ map vname rest = map vname (validators t)
         \<and> resolve_calls i (trace w) = 0
       | Await_resolve \<Rightarrow>
           local_calls i (trace w) = expected_locals t \<and> resolve_calls i (trace w) = 1
       | Settled r \<Rightarrow>
           (case r of
              Inl e \<Rightarrow> prefix (local_calls i (trace w)) (expected_locals t)
                       \<and> resolve_calls i (trace w) \<le> 1
            | Inr x \<Rightarrow> local_calls i (trace w) = expected_locals t
                       \<and> resolve_calls i (trace w) = 1))"

definition calls_invariant :: "system \<Rightarrow> bool" where
  "calls_invariant s \<longleftrightarrow> (\<forall>k<length (snd s). calls_ok k (fst s) (snd s ! k))"

text \<open>
  Whether invocation \<open>j\<close> began the run of the global validators; whether a validator
  resolves on the arguments of an invocation; and the validators that invocation \<open>j\<close>
  runs before it calls the original resolver: the global ones when it began their run,
  then the ones selected for its field, and none when it finds no context.
\<close>

definition began_by :: "nat \<Rightarrow> event list \<Rightarrow> bool" where
  "began_by j tr \<longleftrightarrow> Began_global_run j \<in> set tr"

definition passes :: "task \<Rightarrow> validator \<Rightarrow> bool" where
  "passes t v = (case vcall v (t_args t) of Inl e \<Rightarrow> False | Inr rs \<Rightarrow> True)"

definition validators_before :: "nat \<Rightarrow> world \<Rightarrow> task \<Rightarrow> validator list" where
  "validators_before j w t =
     (if finds_context t
      then (if began_by j (trace w) then global_validators w else []) @ selected w t
      else [])"

text \<open>
  The invariant behind the single call of the original resolver. A task that awaits a
  validator has seen all validators before it resolve; a task that awaits the original
  resolver, or has resolved, has seen all its validators resolve; a rejected task has
  called the original resolver once when all its validators resolve and never otherwise.
\<close>

definition resolve_ok :: "nat \<Rightarrow> world \<Rightarrow> task \<Rightarrow> bool" where
  "resolve_ok j w t \<longleftrightarrow>
     (case phase t of
        Not_invoked \<Rightarrow> \<not> began_by j (trace w)
      | Await_global v rest \<Rightarrow>
          began_by j (trace w)
        \<and> (\<exists>pre. global_validators w = pre @ v # rest \<and> list_all (passes t) pre)
      | Await_local v rest \<Rightarrow>
          (began_by j (trace w) \<longrightarrow> list_all (passes t) (global_validators w))
        \<and> (\<exists>pre. validators t = pre @ v # rest \<and> list_all (passes t) pre)
      | Await_resolve \<Rightarrow> list_all (passes t) (validators_before j w t)
      | Settled r \<Rightarrow>
          (case r of
             Inl e \<Rightarrow> resolve_calls j (trace w) =
                        (if list_all (passes t) (validators_before j w t) then 1 else 0)
           | Inr x \<Rightarrow> list_all (passes t) (validators_before j w t)))"

definition resolve_invariant :: "system \<Rightarrow> bool" where
  "resolve_invariant s \<longleftrightarrow> (\<forall>k<length (snd s). resolve_ok k (fst s) (snd s ! k))"

text \<open>A bound on the steps an invoked task still takes.\<close>

definition remaining :: "task \<Rightarrow> nat" where
  "remaining t =
     (case phase t of
        Not_invoked \<Rightarrow> 0
      | Await_global v rest \<Rightarrow> length rest + length (validators t) + 3
      | Await_local v rest \<Rightarrow> length rest + 2
      | Await_resolve \<Rightarrow> 1
      | Settled r \<Rightarrow> 0)"







section \<open>Concrete requests\<close>

text \<open>A context and a response for the merger.\<close>

definition merge_example_validity :: validity where
  "merge_example_validity =
     \<lparr>validationResults = Some [[(''message'', Str ''a''), (''code'', Num 7)]],
      globalValidationResults = Some [[(''message'', Str ''b'')]],
      profilingData = None\<rparr>"

definition merge_example_response :: response where
  "merge_example_response =
     \<lparr>response_data = Num 1, response_errors = Some [[(''message'', Str ''c'')]]\<rparr>"

text \<open>Arguments with a request-shaped and an info-shaped argument, and arguments without.\<close>

definition request_arg :: arg where
  "request_arg = \<lparr>has_graphQLValidity = True, rootValue_has_graphQLValidity = False,
                   parentType = None, path = None\<rparr>"

definition info_arg :: arg where
  "info_arg = \<lparr>has_graphQLValidity = False, rootValue_has_graphQLValidity = True,
                parentType = Some ''Parent'', path = Some [''field'']\<rparr>"

definition example_args :: args where
  "example_args = [None, None, Some request_arg, Some info_arg]"

definition bare_args :: args where
  "bare_args = [None, None]"

text \<open>A validator that reports one violation, and one that throws.\<close>

definition reports :: "string \<Rightarrow> string \<Rightarrow> validator" where
  "reports n m = \<lparr>vname = n, vcall = (\<lambda>as. Inr [[(''message'', Str m)]])\<rparr>"

definition throws :: "string \<Rightarrow> string \<Rightarrow> validator" where
  "throws n m = \<lparr>vname = n, vcall = (\<lambda>as. Inl (Error m []))\<rparr>"

text \<open>Registered validators, an environment and a world at the start of a request.\<close>

definition example_definitions :: definitions where
  "example_definitions =
     [''*'' \<mapsto> [reports ''every'' ''a''],
      ''TypeX'' \<mapsto> [reports ''byType'' ''b''],
      ''Parent:field'' \<mapsto> [reports ''byField'' ''c''],
      ''$'' \<mapsto> [reports ''global'' ''g'']]"

definition example_env :: effects where
  "example_env =
     \<lparr>clock = (\<lambda>n. if n = 0 then 100 else if n = 1 then 105 else 115),
      clock_reads = 0,
      uuids = (\<lambda>n. replicate (Suc n) CHR ''x''),
      uuid_calls = 0,
      console = []\<rparr>"

definition fresh_validity :: validity where
  "fresh_validity =
     \<lparr>validationResults = Some [], globalValidationResults = None, profilingData = Some []\<rparr>"

definition example_world :: world where
  "example_world =
     \<lparr>FieldValidationDefinitions = example_definitions,
      graphQLValidity = fresh_validity,
      env = example_env,
      trace = []\<rparr>"

definition example_config :: ValidityConfig where
  "example_config =
     \<lparr>wrapErrors = True, enableProfiling = True,
      unhandledErrorWrapper = Some onUnhandledError,
      config_parentTypeName = Some []\<rparr>"

text \<open>An invocation that has not started, and two original resolvers.\<close>

definition task_of ::
  "edition \<Rightarrow> ValidityConfig \<Rightarrow> (args \<Rightarrow> js_error + js_value) \<Rightarrow> args \<Rightarrow> task" where
  "task_of ed c f as =
     \<lparr>t_edition = ed, t_config = c, t_field_type = ''TypeX'', t_field_name = ''field'',
      t_parentTypeName = Some ''Parent'', t_resolve = f, t_args = as, phase = Not_invoked,
      pst = 0, vet = 0, found_validity = False, ast = None, validators = []\<rparr>"

definition boom :: "args \<Rightarrow> js_error + js_value" where
  "boom as = Inl (Error ''boom'' ''at resolver'')"

definition data_and_errors :: "args \<Rightarrow> js_error + js_value" where
  "data_and_errors as = Inr (DataValidationResult (Num 42) (Some [[(''message'', Str ''bad'')]]))"

lemmas example_defs =
  example_args_def request_arg_def info_arg_def bare_args_def reports_def throws_def
  example_definitions_def example_env_def fresh_validity_def example_world_def
  example_config_def task_of_def boom_def data_and_errors_def truthy_def




definition unprofiled_task :: task where
  "unprofiled_task =
     (task_of Index example_config data_and_errors example_args)
       \<lparr>phase := Await_resolve, found_validity := True, ast := None\<rparr>"

definition bare_task :: task where
  "bare_task = task_of Index example_config data_and_errors bare_args"

definition bare_failing_task :: task where
  "bare_failing_task = task_of Schema_wrapper example_config boom bare_args"


text \<open>Requests with two invocations, and requests where a validator throws.\<close>

definition two_fields :: system where
  "two_fields =
     (example_world,
      [task_of Index example_config data_and_errors example_args,
       task_of Schema_wrapper example_config data_and_errors example_args])"

definition throwing_globals :: system where
  "throwing_globals =
     (example_world
        \<lparr>FieldValidationDefinitions :=
           example_definitions(''$'' \<mapsto> [throws ''g1'' ''bang'', reports ''g2'' ''z''])\<rparr>,
      [task_of Schema_wrapper (example_config\<lparr>wrapErrors := False\<rparr>) data_and_errors
         example_args])"

lemmas run_defs =
  resume_def step_def invoke_def validate_def Date_now_def getValidationResults_def
  getValidators_def lookup_def or_empty_def to_string_def log_event_def push_global_def
  push_local_def call_resolve_def catch_block_def finish_def unwrap_def record_profile_def
  storeProfilingInfo_def

definition failing_globals :: system where
  "failing_globals =
     (example_world
        \<lparr>FieldValidationDefinitions :=
           example_definitions(''$'' \<mapsto> [reports ''g1'' ''x'', throws ''g2'' ''bang'',
                                         reports ''g3'' ''z''])\<rparr>,
      [task_of Index (example_config\<lparr>wrapErrors := False\<rparr>) data_and_errors example_args,
       task_of Schema_wrapper example_config data_and_errors example_args])"

text \<open>
  A store with a field that has a resolver and one that has none, a type with both fields,
  a schema with that type and a scalar, and calls of \<open>wrapResolvers\<close> that overlap: on
  the type, on the schema and on the field.
\<close>

definition example_field :: field where
  "example_field =
     \<lparr>field_name = ''field'', field_type = ''TypeX'', resolve = Some (Plain data_and_errors),
      Processed = (\<lambda>ed. False)\<rparr>"

definition bare_field :: field where
  "bare_field =
     \<lparr>field_name = ''id'', field_type = ''ID'', resolve = None, Processed = (\<lambda>ed. False)\<rparr>"

definition example_store :: store where
  "example_store = (\<lambda>a. bare_field)(0 := example_field)"

definition example_type :: object_type where
  "example_type =
     \<lparr>type_name = ''Parent'', getFields = Some [(''field'', 0), (''id'', 1)],
      type_Processed = (\<lambda>ed. False)\<rparr>"

definition scalar_type :: object_type where
  "scalar_type = \<lparr>type_name = ''String'', getFields = None, type_Processed = (\<lambda>ed. False)\<rparr>"

definition example_schema :: schema where
  "example_schema = [(''Parent'', example_type), (''String'', scalar_type)]"

definition overlapping_wraps :: "(entity \<times> ValidityConfig option) list" where
  "overlapping_wraps =
     [(GraphQLObjectType example_type, Some example_config),
      (GraphQLSchema example_schema, Some (example_config\<lparr>wrapErrors := False\<rparr>)),
      (Field 0, None)]"

text \<open>The field after these calls, and requests that invoke its resolver.\<close>

definition wrapped_twice :: field where
  "wrapped_twice = wrap_all Schema_wrapper overlapping_wraps example_store 0"

definition rejecting_validator :: system where
  "rejecting_validator =
     (example_world\<lparr>FieldValidationDefinitions := [''*'' \<mapsto> [throws ''v'' ''no'']]\<rparr>,
      [the (invocation (the (resolve wrapped_twice)) example_args)])"

definition wrapped_field_request :: system where
  "wrapped_field_request =
     (example_world, [the (invocation (the (resolve wrapped_twice)) example_args)])"

lemmas wrap_defs =
  wrap_all_def wrapResolvers_def wrapSchema_def wrapType_def wrapField_def default_config_def
  example_field_def bare_field_def example_store_def example_type_def scalar_type_def
  example_schema_def overlapping_wraps_def

text \<open>An invocation whose validators all resolve and whose original resolver throws.\<close>

definition resolver_throws :: system where
  "resolver_throws = (example_world, [task_of Schema_wrapper example_config boom example_args])"


text \<open>One invocation of a field with all four kinds of validators registered.\<close>

definition one_field :: system where
  "one_field = (example_world, [task_of Index example_config data_and_errors example_args])"


section \<open>Properties\<close>

subsection \<open>The response merger\<close>

text \<open>
  C5. For every context whose local results are a list and every response payload, the
  merger leaves the payload's data alone and sets its errors to the existing errors
  (none when the payload has no error list), followed by the local results, followed by the
  global results (none when absent), each result replaced by an object whose only
  property is \<open>message\<close>, with the message of the result. Nothing is reordered or
  removed.
\<close>

theorem merge_order_and_projection:
  assumes "validationResults v = Some locals"
  shows "getResponseValidationResults v data =
           Inr (data\<lparr>response_errors :=
                  Some (or_empty (response_errors data)
                        @ map message_only locals
                        @ map message_only (or_empty (globalValidationResults v)))\<rparr>)
         \<and> list_all (\<lambda>e. map fst e = [''message''])
              (map message_only locals @ map message_only (or_empty (globalValidationResults v)))
         \<and> list_all (\<lambda>e. property (message_only e) ''message'' = property e ''message'')
              (locals @ or_empty (globalValidationResults v))"
  using assms
  by (auto simp: getResponseValidationResults_def list_all_iff message_only_def property_def)

theorem merge_order_and_projection_witness:
  "validationResults merge_example_validity = Some [[(''message'', Str ''a''), (''code'', Num 7)]]
   \<and> getResponseValidationResults merge_example_validity merge_example_response =
       Inr \<lparr>response_data = Num 1,
            response_errors = Some [[(''message'', Str ''c'')], [(''message'', Str ''a'')],
                                    [(''message'', Str ''b'')]]\<rparr>"
proof -
  have h: "validationResults merge_example_validity
             = Some [[(''message'', Str ''a''), (''code'', Num 7)]]"
    by (simp add: merge_example_validity_def)
  show ?thesis
    using h merge_order_and_projection [OF h, of merge_example_response]
    by (simp add: merge_example_validity_def merge_example_response_def or_empty_def
          message_only_def property_def)
qed


subsection \<open>Steps of a task\<close>

lemma getValidationResults_simps:
  "validationResults (fst (getValidationResults v)) = Some (or_empty (validationResults v))"
  "globalValidationResults (fst (getValidationResults v)) = globalValidationResults v"
  "profilingData (fst (getValidationResults v)) = profilingData v"
  "snd (getValidationResults v) = globalValidationResults v"
  by (auto simp: getValidationResults_def or_empty_def split: option.splits)

lemma push_local_simps:
  "validationResults (push_local rs v) = map_option (\<lambda>l. l @ rs) (validationResults v)"
  "globalValidationResults (push_local rs v) = globalValidationResults v"
  "profilingData (push_local rs v) = profilingData v"
  by (simp_all add: push_local_def)

lemma push_global_simps:
  "validationResults (push_global rs v) = validationResults v"
  "globalValidationResults (push_global rs v) = map_option (\<lambda>l. l @ rs) (globalValidationResults v)"
  "profilingData (push_global rs v) = profilingData v"
  by (simp_all add: push_global_def)



lemma onUnhandledError_eq:
  "onUnhandledError e s =
     (Error (internal_error_message (uuids s (uuid_calls s))) [],
      s\<lparr>uuid_calls := Suc (uuid_calls s),
        console := console s @ [''Unhandled error occured with id:'' @ uuids s (uuid_calls s)
                                  @ '', stack:'' @ stack_of e]\<rparr>)"
  by (simp add: onUnhandledError_def uuid_def console_error_def)


lemma unwrap_snd: "snd (unwrap w t out) = effective_result out"
  by (cases out) (simp_all add: unwrap_def)

lemma unwrap_frame:
  "env (fst (unwrap w t out)) = env w"
  "trace (fst (unwrap w t out)) = trace w"
  "FieldValidationDefinitions (fst (unwrap w t out)) = FieldValidationDefinitions w"
  "globalValidationResults (graphQLValidity (fst (unwrap w t out))) =
     globalValidationResults (graphQLValidity w)"
  "profilingData (graphQLValidity (fst (unwrap w t out))) = profilingData (graphQLValidity w)"
  by (cases out; simp add: unwrap_def split_beta getValidationResults_simps push_local_simps
        split: option.splits list.splits)+

lemma unwrap_validationResults:
  "validationResults (graphQLValidity (fst (unwrap w t out))) =
     (case out of
        DataValidationResult d errs \<Rightarrow>
          if found_validity t
          then Some (or_empty (validationResults (graphQLValidity w)) @ or_empty errs)
          else validationResults (graphQLValidity w)
      | _ \<Rightarrow> validationResults (graphQLValidity w))"
  by (cases out; simp add: unwrap_def split_beta getValidationResults_simps push_local_simps
        or_empty_def split: option.splits list.splits)

lemma unwrap_not_found: "\<not> found_validity t \<Longrightarrow> fst (unwrap w t out) = w"
  by (cases out) (simp_all add: unwrap_def)

lemma record_profile_frame:
  "validationResults (graphQLValidity (record_profile w t eet)) =
     validationResults (graphQLValidity w)"
  "globalValidationResults (graphQLValidity (record_profile w t eet)) =
     globalValidationResults (graphQLValidity w)"
  "trace (record_profile w t eet) = trace w"
  "FieldValidationDefinitions (record_profile w t eet) = FieldValidationDefinitions w"
  by (auto simp: record_profile_def storeProfilingInfo_def split: option.splits sum.splits)

lemma record_profile_not_found: "\<not> found_validity t \<Longrightarrow> record_profile w t eet = w"
  by (simp add: record_profile_def)

lemma finish_Schema_wrapper:
  "t_edition t = Schema_wrapper \<Longrightarrow> finish w t out = (w, t\<lparr>phase := Settled (Inr out)\<rparr>)"
  by (simp add: finish_def)

lemma finish_Index:
  "t_edition t = Index \<Longrightarrow>
   finish w t out =
     (record_profile (fst (unwrap w t out)\<lparr>env := snd (Date_now (env w))\<rparr>) t
        (fst (Date_now (env w))),
      t\<lparr>phase := Settled (Inr (effective_result out))\<rparr>)"
  by (simp add: finish_def split_beta unwrap_snd unwrap_frame)

lemma log_event_simps:
  "trace (log_event e w) = trace w @ [e]"
  "graphQLValidity (log_event e w) = graphQLValidity w"
  "env (log_event e w) = env w"
  "FieldValidationDefinitions (log_event e w) = FieldValidationDefinitions w"
  by (simp_all add: log_event_def)

lemma call_resolve_eq:
  "call_resolve i w t =
     (case t_edition t of
        Schema_wrapper \<Rightarrow> (log_event (Called_resolve i) w, t\<lparr>phase := Await_resolve\<rparr>)
      | Index \<Rightarrow>
          (log_event (Called_resolve i)
             (w\<lparr>env := env w\<lparr>clock_reads := Suc (clock_reads (env w))\<rparr>\<rparr>),
           t\<lparr>vet := clock (env w) (clock_reads (env w)), phase := Await_resolve\<rparr>))"
  by (simp add: call_resolve_def Date_now_def split: edition.splits)

lemma same_locals_refl [simp]: "same_locals t t"
  by (simp add: same_locals_def)

lemma same_locals_phase [simp]: "same_locals (t\<lparr>phase := p\<rparr>) t"
  by (simp add: same_locals_def)

lemma call_resolve_locals: "same_locals (snd (call_resolve i w t)) t"
  by (simp add: call_resolve_eq same_locals_def split: edition.splits)

lemma next_local_locals: "same_locals (snd (next_local i w t vs)) t"
  by (cases vs) (simp_all add: call_resolve_locals)

lemma next_global_locals: "same_locals (snd (next_global i w t vs)) t"
  by (cases vs) (simp_all add: next_local_locals)

lemma same_locals_trans: "same_locals a b \<Longrightarrow> same_locals b c \<Longrightarrow> same_locals a c"
  by (simp add: same_locals_def)

lemma validate_eq:
  "validate i w t p =
     (let v = fst (getValidationResults (graphQLValidity w));
          vals = fst (getValidators (FieldValidationDefinitions w) (t_field_type t)
                        (t_field_name t) p)
      in case globalValidationResults (graphQLValidity w) of
           None \<Rightarrow>
             next_global i
               (log_event (Began_global_run i)
                  (w\<lparr>graphQLValidity := v\<lparr>globalValidationResults := Some []\<rparr>\<rparr>))
               (t\<lparr>validators := vals\<rparr>) (lookup (FieldValidationDefinitions w) ''$'')
         | Some g \<Rightarrow> next_local i (w\<lparr>graphQLValidity := v\<rparr>) (t\<lparr>validators := vals\<rparr>) vals)"
  by (simp add: validate_def split_beta Let_def getValidationResults_simps getValidators_def)

lemma validate_locals:
  "same_locals (snd (validate i w t p)) (t\<lparr>validators := fst (getValidators (FieldValidationDefinitions w) (t_field_type t) (t_field_name t) p)\<rparr>)"
  by (simp add: validate_eq Let_def next_local_locals next_global_locals split: option.splits)

lemma catch_block_locals: "same_locals (snd (catch_block w t e)) t \<and> vet (snd (catch_block w t e)) = vet t"
  by (simp add: catch_block_def split_beta split: option.splits)

lemma finish_locals: "same_locals (snd (finish w t out)) t \<and> vet (snd (finish w t out)) = vet t"
  by (simp add: finish_def split_beta split: edition.splits)

lemma step_locals:
  "phase t \<noteq> Not_invoked \<Longrightarrow> same_locals (snd (step i w t)) t"
  by (cases "phase t")
     (simp_all add: step_def next_local_locals next_global_locals catch_block_locals
        finish_locals split: sum.splits)



lemma next_local_phase:
  "phase (snd (next_local i w t vs)) = (case vs of [] \<Rightarrow> Await_resolve | v # vs' \<Rightarrow> Await_local v vs')"
  by (cases vs) (simp_all add: call_resolve_eq split: edition.splits)

lemma next_global_phase:
  "phase (snd (next_global i w t vs)) =
     (case vs of
        [] \<Rightarrow> (case validators t of [] \<Rightarrow> Await_resolve | v # vs' \<Rightarrow> Await_local v vs')
      | v # vs' \<Rightarrow> Await_global v vs')"
  by (cases vs) (simp_all add: next_local_phase)





lemma catch_block_phase: "\<exists>e'. phase (snd (catch_block w t e)) = Settled (Inl e')"
  by (simp add: catch_block_def split_beta split: option.splits)

lemma catch_block_not_awaiting [simp]:
  "phase (snd (catch_block w t e)) \<noteq> Await_resolve"
  "phase (snd (catch_block w t e)) \<noteq> Not_invoked"
  "phase (snd (catch_block w t e)) \<noteq> Await_global v rest"
  "phase (snd (catch_block w t e)) \<noteq> Await_local v rest"
  using catch_block_phase [of w t e] by auto







lemma step_Not_invoked: "phase t = Not_invoked \<Longrightarrow> step i w t = invoke i w t"
  by (simp add: step_def)

lemma invoke_no_context:
  "\<not> finds_context t \<Longrightarrow>
   invoke i w t =
     (case t_edition t of
        Schema_wrapper \<Rightarrow> call_resolve i w (t\<lparr>found_validity := False\<rparr>)
      | Index \<Rightarrow>
          call_resolve i (w\<lparr>env := env w\<lparr>clock_reads := Suc (clock_reads (env w))\<rparr>\<rparr>)
            (t\<lparr>pst := clock (env w) (clock_reads (env w)),
               ast := fst (snd (scan_args (t_args t) (False, None, None))),
               found_validity := False\<rparr>))"
  by (auto simp: finds_context_def invoke_def Date_now_def split_beta Let_def
        split: edition.splits option.splits)

lemma record_profile_disabled:
  "\<not> enableProfiling (t_config t) \<Longrightarrow> record_profile w t eet = w"
  by (simp add: record_profile_def)

lemma record_profile_failed:
  "found_validity t \<Longrightarrow> enableProfiling (t_config t) \<Longrightarrow> ast t = None \<Longrightarrow>
   record_profile w t eet =
     w\<lparr>env := console_error ''Profiling failed! Cannot read property path of undefined'' (env w)\<rparr>"
  "found_validity t \<Longrightarrow> enableProfiling (t_config t) \<Longrightarrow> ast t = Some a \<Longrightarrow>
   profilingData (graphQLValidity w) = None \<Longrightarrow>
   record_profile w t eet =
     w\<lparr>env := console_error ''Profiling failed! Cannot read property push of undefined'' (env w)\<rparr>"
  by (simp_all add: record_profile_def storeProfilingInfo_def)

lemma trace_observers [simp]:
  "began_runs [] = 0" "began_runs (xs @ ys) = began_runs xs + began_runs ys"
  "began_runs (e # xs) = began_run e + began_runs xs"
  "global_calls [] = []" "global_calls (xs @ ys) = global_calls xs @ global_calls ys"
  "global_calls (e # xs) = global_call e @ global_calls xs"
  "local_calls k [] = []" "local_calls k (xs @ ys) = local_calls k xs @ local_calls k ys"
  "local_calls k (e # xs) = local_call k e @ local_calls k xs"
  "resolve_calls k [] = 0" "resolve_calls k (xs @ ys) = resolve_calls k xs + resolve_calls k ys"
  "resolve_calls k (e # xs) = resolve_call k e + resolve_calls k xs"
  by (simp_all add: began_runs_def global_calls_def local_calls_def resolve_calls_def)

lemma call_resolve_world:
  "trace (fst (call_resolve i w t)) = trace w @ [Called_resolve i]"
  "graphQLValidity (fst (call_resolve i w t)) = graphQLValidity w"
  "FieldValidationDefinitions (fst (call_resolve i w t)) = FieldValidationDefinitions w"
  by (simp_all add: call_resolve_eq log_event_simps split: edition.splits)

lemma next_local_world:
  "trace (fst (next_local i w t vs)) =
     trace w @ [case vs of [] \<Rightarrow> Called_resolve i | v # vs' \<Rightarrow> Called_local i (vname v)]"
  "graphQLValidity (fst (next_local i w t vs)) = graphQLValidity w"
  "FieldValidationDefinitions (fst (next_local i w t vs)) = FieldValidationDefinitions w"
  by (cases vs; simp add: call_resolve_world log_event_simps)+

lemma next_global_world:
  "trace (fst (next_global i w t vs)) =
     trace w @ [case vs of
                  [] \<Rightarrow> (case validators t of
                           [] \<Rightarrow> Called_resolve i
                         | v # vs' \<Rightarrow> Called_local i (vname v))
                | g # gs \<Rightarrow> Called_global i (vname g)]"
  "graphQLValidity (fst (next_global i w t vs)) = graphQLValidity w"
  "FieldValidationDefinitions (fst (next_global i w t vs)) = FieldValidationDefinitions w"
  by (cases vs; simp add: next_local_world log_event_simps)+

lemma catch_block_world:
  "trace (fst (catch_block w t e)) = trace w"
  "graphQLValidity (fst (catch_block w t e)) = graphQLValidity w"
  "FieldValidationDefinitions (fst (catch_block w t e)) = FieldValidationDefinitions w"
  by (simp_all add: catch_block_def split_beta split: option.splits)

lemma finish_world:
  "trace (fst (finish w t out)) = trace w"
  "FieldValidationDefinitions (fst (finish w t out)) = FieldValidationDefinitions w"
  "globalValidationResults (graphQLValidity (fst (finish w t out))) =
     globalValidationResults (graphQLValidity w)"
  by (cases "t_edition t";
      simp add: finish_Schema_wrapper finish_Index record_profile_frame unwrap_frame)+

lemma finish_phase:
  "phase (snd (finish w t out)) =
     Settled (Inr (case t_edition t of Schema_wrapper \<Rightarrow> out | Index \<Rightarrow> effective_result out))"
  by (cases "t_edition t") (simp_all add: finish_Schema_wrapper finish_Index)

lemma validate_world:
  "FieldValidationDefinitions (fst (validate i w t p)) = FieldValidationDefinitions w"
  "globalValidationResults (graphQLValidity (fst (validate i w t p))) =
     Some (or_empty (globalValidationResults (graphQLValidity w)))"
  by (cases "globalValidationResults (graphQLValidity w)";
      simp add: validate_eq Let_def next_local_world next_global_world log_event_simps
        getValidationResults_simps or_empty_def)+

lemma invoke_definitions:
  "FieldValidationDefinitions (fst (invoke i w t)) = FieldValidationDefinitions w"
  by (simp add: invoke_def split_beta Let_def validate_world call_resolve_world
        split: edition.splits option.splits)

lemma step_definitions:
  "FieldValidationDefinitions (fst (step i w t)) = FieldValidationDefinitions w"
  by (cases "phase t")
     (simp_all add: step_def invoke_definitions next_global_world next_local_world
        catch_block_world finish_world split: sum.splits)

lemma same_locals_closure: "same_locals t' t \<Longrightarrow> same_closure t' t"
  by (simp add: same_locals_def same_closure_def)

lemma invoke_closure: "same_closure (snd (invoke i w t)) t"
proof (cases "t_edition t")
  case Schema_wrapper
  then show ?thesis
    using validate_locals [of i w "t\<lparr>found_validity := True\<rparr>" "t_parentTypeName t"]
      call_resolve_locals [of i w "t\<lparr>found_validity := False\<rparr>"]
    by (simp add: invoke_def same_locals_def same_closure_def split: option.splits)
next
  case Index
  then show ?thesis
    using validate_locals call_resolve_locals
    by (simp add: invoke_def split_beta Let_def same_locals_def same_closure_def)
qed

lemma step_closure: "same_closure (snd (step i w t)) t"
proof (cases "phase t = Not_invoked")
  case True
  then show ?thesis by (simp add: step_def invoke_closure)
next
  case False
  then show ?thesis by (simp add: step_locals same_locals_closure)
qed

lemma finds_context_closure: "same_closure t' t \<Longrightarrow> finds_context t' = finds_context t"
  by (auto simp: same_closure_def finds_context_def split: edition.splits)

lemma in_global_phase:
  "phase t = Not_invoked \<Longrightarrow> \<not> in_global t"
  "phase t = Await_global v rest \<Longrightarrow> in_global t"
  "phase t = Await_local v rest \<Longrightarrow> \<not> in_global t"
  "phase t = Await_resolve \<Longrightarrow> \<not> in_global t"
  "phase t = Settled r \<Longrightarrow> \<not> in_global t"
  by (simp_all add: in_global_def)

lemma in_global_update [simp]:
  "in_global (t\<lparr>phase := p\<rparr>) = (case p of Await_global v rest \<Rightarrow> True | _ \<Rightarrow> False)"
  by (simp add: in_global_def)

lemma settled_phase:
  "phase t = Not_invoked \<Longrightarrow> \<not> settled t"
  "phase t = Await_global v rest \<Longrightarrow> \<not> settled t"
  "phase t = Await_local v rest \<Longrightarrow> \<not> settled t"
  "phase t = Await_resolve \<Longrightarrow> \<not> settled t"
  "phase t = Settled r \<Longrightarrow> settled t"
  by (simp_all add: settled_def)

lemma catch_block_not_in_global [simp]: "\<not> in_global (snd (catch_block w t e))"
  using catch_block_phase [of w t e] by (auto simp: in_global_def)

lemma call_resolve_not_in_global [simp]: "\<not> in_global (snd (call_resolve i w t))"
  by (simp add: call_resolve_eq split: edition.splits)

lemma next_local_not_in_global [simp]: "\<not> in_global (snd (next_local i w t vs))"
  by (simp add: in_global_def next_local_phase split: list.splits)

lemma finish_not_in_global [simp]: "\<not> in_global (snd (finish w t out))"
  by (simp add: finish_phase in_global_def)

lemma next_global_in_global [simp]: "in_global (snd (next_global i w t vs)) \<longleftrightarrow> vs \<noteq> []"
  by (simp add: in_global_def next_global_phase split: list.splits)

lemma invoke_finds:
  "finds_context t \<Longrightarrow>
   invoke i w t =
     (case t_edition t of
        Schema_wrapper \<Rightarrow> validate i w (t\<lparr>found_validity := True\<rparr>) (t_parentTypeName t)
      | Index \<Rightarrow>
          validate i (w\<lparr>env := env w\<lparr>clock_reads := Suc (clock_reads (env w))\<rparr>\<rparr>)
            (t\<lparr>pst := clock (env w) (clock_reads (env w)),
               ast := fst (snd (scan_args (t_args t) (False, None, None))),
               found_validity := True\<rparr>)
            (snd (snd (scan_args (t_args t) (False, None, None)))))"
  by (auto simp: finds_context_def invoke_def Date_now_def split_beta Let_def
        split: edition.splits option.splits)

lemma validate_begin:
  assumes "globalValidationResults (graphQLValidity w) = None"
  shows "globalValidationResults (graphQLValidity (fst (validate i w t p))) = Some []"
    and "began_runs (trace (fst (validate i w t p))) = Suc (began_runs (trace w))"
    and "global_calls (trace (fst (validate i w t p))) =
           global_calls (trace w) @ (case global_validators w of [] \<Rightarrow> [] | g # gs \<Rightarrow> [vname g])"
    and "phase (snd (validate i w t p)) =
           (case global_validators w of
              [] \<Rightarrow> (case fst (getValidators (FieldValidationDefinitions w) (t_field_type t)
                                 (t_field_name t) p) of
                       [] \<Rightarrow> Await_resolve
                     | v # vs \<Rightarrow> Await_local v vs)
            | g # gs \<Rightarrow> Await_global g gs)"
  using assms
  by (simp_all add: validate_eq Let_def next_global_world next_global_phase log_event_simps
        global_validators_def split: list.splits)

lemma validate_skip:
  assumes "globalValidationResults (graphQLValidity w) = Some g"
  shows "global_view (fst (validate i w t p)) = global_view w"
    and "\<not> in_global (snd (validate i w t p))"
    and "globalValidationResults (graphQLValidity (fst (validate i w t p))) = Some g"
  using assms
  by (simp_all add: validate_eq Let_def next_local_world global_view_def
        getValidationResults_simps split: list.splits)

lemma step_begin:
  assumes "phase t = Not_invoked" and "finds_context t"
    and "globalValidationResults (graphQLValidity w) = None"
  shows "globalValidationResults (graphQLValidity (fst (step i w t))) = Some []"
    and "began_runs (trace (fst (step i w t))) = Suc (began_runs (trace w))"
    and "global_calls (trace (fst (step i w t))) =
           global_calls (trace w) @ (case global_validators w of [] \<Rightarrow> [] | g # gs \<Rightarrow> [vname g])"
    and "in_global (snd (step i w t)) \<longleftrightarrow> global_validators w \<noteq> []"
    and "global_validators w = g # gs \<Longrightarrow> phase (snd (step i w t)) = Await_global g gs"
proof -
  obtain w1 t1 p where s: "step i w t = validate i w1 t1 p"
    and w1: "globalValidationResults (graphQLValidity w1) = None" "trace w1 = trace w"
      "global_validators w1 = global_validators w"
    using assms
    by (cases "t_edition t")
       (simp_all add: step_Not_invoked invoke_finds global_validators_def)
  show "globalValidationResults (graphQLValidity (fst (step i w t))) = Some []"
    and "began_runs (trace (fst (step i w t))) = Suc (began_runs (trace w))"
    and "global_calls (trace (fst (step i w t))) =
           global_calls (trace w) @ (case global_validators w of [] \<Rightarrow> [] | g # gs \<Rightarrow> [vname g])"
    and "in_global (snd (step i w t)) \<longleftrightarrow> global_validators w \<noteq> []"
    and "global_validators w = g # gs \<Longrightarrow> phase (snd (step i w t)) = Await_global g gs"
    using w1 validate_begin [OF w1(1), of i t1 p]
    by (simp_all add: s in_global_def split: list.splits)
qed

lemma step_skip:
  assumes "phase t = Not_invoked"
    and "\<not> finds_context t \<or> globalValidationResults (graphQLValidity w) \<noteq> None"
  shows "global_view (fst (step i w t)) = global_view w"
    and "\<not> in_global (snd (step i w t))"
proof -
  show "global_view (fst (step i w t)) = global_view w"
  proof (cases "finds_context t")
    case True
    then obtain g where "globalValidationResults (graphQLValidity w) = Some g"
      using assms by auto
    then show ?thesis
      using assms True
      by (cases "t_edition t")
         (simp_all add: step_Not_invoked invoke_finds validate_skip, simp_all add: global_view_def validate_skip)
  next
    case False
    then show ?thesis
      using assms
      by (cases "t_edition t")
         (simp_all add: step_Not_invoked invoke_no_context call_resolve_world global_view_def)
  qed
  show "\<not> in_global (snd (step i w t))"
  proof (cases "finds_context t")
    case True
    then obtain g where "globalValidationResults (graphQLValidity w) = Some g"
      using assms by auto
    then show ?thesis
      using assms True
      by (cases "t_edition t")
         (simp_all add: step_Not_invoked invoke_finds validate_skip)
  next
    case False
    then show ?thesis
      using assms
      by (cases "t_edition t")
         (simp_all add: step_Not_invoked invoke_no_context)
  qed
qed

lemma step_global_ok:
  assumes "phase t = Await_global v rest" and "vcall v (t_args t) = Inr rs"
  shows "globalValidationResults (graphQLValidity (fst (step i w t))) =
           map_option (\<lambda>g. g @ rs) (globalValidationResults (graphQLValidity w))"
    and "began_runs (trace (fst (step i w t))) = began_runs (trace w)"
    and "global_calls (trace (fst (step i w t))) =
           global_calls (trace w) @ (case rest of [] \<Rightarrow> [] | g # gs \<Rightarrow> [vname g])"
    and "in_global (snd (step i w t)) \<longleftrightarrow> rest \<noteq> []"
    and "rest = g # gs \<Longrightarrow> phase (snd (step i w t)) = Await_global g gs"
  using assms
  by (simp_all add: step_def next_global_world push_global_simps split: list.splits)

lemma step_global_failed:
  assumes "phase t = Await_global v rest" and "vcall v (t_args t) = Inl e"
  shows "global_view (fst (step i w t)) = global_view w"
    and "\<not> in_global (snd (step i w t))"
    and "graphQLValidity (fst (step i w t)) = graphQLValidity w"
  using assms
  by (simp_all add: step_def catch_block_world global_view_def)

lemma step_past_global:
  assumes "phase t \<noteq> Not_invoked" and "\<not> in_global t"
  shows "global_view (fst (step i w t)) = global_view w"
    and "\<not> in_global (snd (step i w t))"
    and "globalValidationResults (graphQLValidity (fst (step i w t))) =
           globalValidationResults (graphQLValidity w)"
proof -
  have "global_view (fst (step i w t)) = global_view w \<and> \<not> in_global (snd (step i w t))
      \<and> globalValidationResults (graphQLValidity (fst (step i w t))) =
           globalValidationResults (graphQLValidity w)"
  proof (cases "phase t")
    case Not_invoked
    then show ?thesis using assms by simp
  next
    case (Await_global v rest)
    then show ?thesis using assms by (simp add: in_global_def)
  next
    case (Await_local v rest)
    show ?thesis
    proof (cases "vcall v (t_args t)")
      case (Inl e)
      then show ?thesis
        using Await_local
        by (simp add: step_def catch_block_world global_view_def)
    next
      case (Inr rs)
      then show ?thesis
        using Await_local
        by (simp add: step_def next_local_world push_local_simps global_view_def
              split: list.splits)
    qed
  next
    case Await_resolve
    show ?thesis
    proof (cases "t_resolve t (t_args t)")
      case (Inl e)
      then show ?thesis
        using Await_resolve
        by (simp add: step_def catch_block_world global_view_def)
    next
      case (Inr out)
      then show ?thesis
        using Await_resolve
        by (simp add: step_def finish_world global_view_def)
    qed
  next
    case (Settled r)
    then show ?thesis by (simp add: step_def in_global_def)
  qed
  then show "global_view (fst (step i w t)) = global_view w"
    and "\<not> in_global (snd (step i w t))"
    and "globalValidationResults (graphQLValidity (fst (step i w t))) =
           globalValidationResults (graphQLValidity w)"
    by simp_all
qed

subsection \<open>The run of the global validators: invariant\<close>

lemma resume_eq:
  "i < length ts \<Longrightarrow>
   resume i (w, ts) = (fst (step i w (ts ! i)), ts[i := snd (step i w (ts ! i))])"
  by (simp add: resume_def split_beta)

lemma resume_out_of_range: "\<not> i < length (snd s) \<Longrightarrow> resume i s = s"
  by (cases s) (simp add: resume_def)

lemma global_validators_step: "global_validators (fst (step i w t)) = global_validators w"
  by (simp add: global_validators_def step_definitions)

lemma finds_context_step: "finds_context (snd (step i w t)) = finds_context t"
  by (simp add: finds_context_closure step_closure)

lemma in_global_iff: "in_global t \<longleftrightarrow> (\<exists>v rest. phase t = Await_global v rest)"
  by (cases "phase t") (simp_all add: in_global_def)

lemma global_view_eq:
  "global_view w' = global_view w \<longleftrightarrow>
     (globalValidationResults (graphQLValidity w') = None
        \<longleftrightarrow> globalValidationResults (graphQLValidity w) = None)
   \<and> began_runs (trace w') = began_runs (trace w)
   \<and> global_calls (trace w') = global_calls (trace w)"
  by (auto simp: global_view_def)

lemma world_ok_cong:
  "global_view w' = global_view w \<Longrightarrow> global_validators w' = global_validators w \<Longrightarrow>
   world_ok w' = world_ok w"
  by (simp add: world_ok_def global_view_eq)

lemma task_ok_cong:
  "global_view w' = global_view w \<Longrightarrow> global_validators w' = global_validators w \<Longrightarrow>
   task_ok w' t = task_ok w t"
  by (simp add: task_ok_def global_view_eq)

lemma task_ok_past:
  "\<not> in_global t \<Longrightarrow> globalValidationResults (graphQLValidity w) \<noteq> None \<Longrightarrow> task_ok w t"
  by (auto simp: task_ok_def in_global_iff)

lemma one_runner_update:
  assumes "one_runner ts" and "i < length ts"
    and "in_global t' \<Longrightarrow> in_global (ts ! i) \<or> (\<forall>j<length ts. \<not> in_global (ts ! j))"
  shows "one_runner (ts[i := t'])"
  unfolding one_runner_def
proof (intro allI impI)
  fix j k
  assume j: "j < length (ts[i := t'])" and k: "k < length (ts[i := t'])"
    and gj: "in_global (ts[i := t'] ! j)" and gk: "in_global (ts[i := t'] ! k)"
  have before: "in_global (ts ! m) \<or> (m = i \<and> in_global t')" if "m < length ts" "in_global (ts[i := t'] ! m)" for m
    using that assms(2) by (cases "m = i") simp_all
  show "j = k"
  proof (cases "in_global t'")
    case False
    then have "in_global (ts ! j)" "in_global (ts ! k)"
      using before j k gj gk by auto
    then show ?thesis using assms(1) j k by (simp add: one_runner_def)
  next
    case True
    from assms(3) [OF True] show ?thesis
    proof
      assume old: "in_global (ts ! i)"
      have "in_global (ts ! j)" "in_global (ts ! k)"
        using before [of j] before [of k] j k gj gk old by auto
      then show ?thesis using assms(1) j k by (simp add: one_runner_def)
    next
      assume none: "\<forall>j<length ts. \<not> in_global (ts ! j)"
      then have "j = i" "k = i"
        using before [of j] before [of k] j k gj gk by auto
      then show ?thesis by simp
    qed
  qed
qed

lemma once_invariant_resume:
  assumes "once_invariant s"
  shows "once_invariant (resume i s)"
proof (cases "i < length (snd s)")
  case False
  then show ?thesis using assms by (simp add: resume_out_of_range)
next
  case True
  obtain w ts where s: "s = (w, ts)" by (cases s)
  define t where "t = ts ! i"
  define w' where "w' = fst (step i w t)"
  define t' where "t' = snd (step i w t)"
  have r: "resume i s = (w', ts[i := t'])"
    using True by (simp add: s resume_eq w'_def t'_def t_def)
  have G: "global_validators w' = global_validators w"
    by (simp add: w'_def global_validators_step)
  have fc: "finds_context t' = finds_context t"
    by (simp add: t'_def finds_context_step)
  have i: "i < length ts" using True by (simp add: s)
  have wok: "world_ok w" and tok: "\<And>j. j < length ts \<Longrightarrow> task_ok w (ts ! j)"
    and one: "one_runner ts"
    using assms by (simp_all add: once_invariant_def s)
  have ti: "task_ok w t" using tok i by (simp add: t_def)
  text \<open>Three things are enough: the world, the task that moved, and the other tasks.\<close>
  have enough: ?thesis
    if "world_ok w'" and "task_ok w' t'"
      and "\<And>j. j < length ts \<Longrightarrow> j \<noteq> i \<Longrightarrow> task_ok w' (ts ! j)"
      and "in_global t' \<Longrightarrow> in_global t \<or> (\<forall>j<length ts. \<not> in_global (ts ! j))"
    using that one i one_runner_update [of ts i t']
    by (auto simp: r once_invariant_def nth_list_update t_def)
  have same: ?thesis if "global_view w' = global_view w" and "\<not> in_global t'" and "task_ok w' t'"
  proof (intro enough)
    show "world_ok w'" using that(1) G wok world_ok_cong [of w' w] by simp
    show "task_ok w' t'" by (rule that(3))
    show "task_ok w' (ts ! j)" if "j < length ts" for j
      using that \<open>global_view w' = global_view w\<close> G tok task_ok_cong [of w' w "ts ! j"] by simp
    show "in_global t \<or> (\<forall>j<length ts. \<not> in_global (ts ! j))" if "in_global t'"
      using that \<open>\<not> in_global t'\<close> by simp
  qed
  have starts: ?thesis
    if c: "phase t = Not_invoked" "finds_context t"
      "globalValidationResults (graphQLValidity w) = None"
  proof -
    note st = step_begin [OF c, where i = i, folded w'_def t'_def]
    have none: "\<forall>j<length ts. \<not> in_global (ts ! j)"
      using tok c(3) by (simp add: task_ok_def)
    have 1: "world_ok w'"
      using wok c(3) st(1-3) G by (auto simp: world_ok_def split: list.splits)
    have 2: "task_ok w' t'"
      using wok c(3) st G by (auto simp: task_ok_def world_ok_def in_global_iff split: list.splits)
    have 3: "task_ok w' (ts ! j)" if "j < length ts" for j
      using none that st(1) by (simp add: task_ok_past)
    show ?thesis using 1 2 3 none by (intro enough) simp_all
  qed
  have skips: ?thesis
    if c: "phase t = Not_invoked"
      "\<not> finds_context t \<or> globalValidationResults (graphQLValidity w) \<noteq> None"
  proof -
    note st = step_skip [OF c, where i = i, folded w'_def t'_def]
    have "task_ok w' t'"
      using st c fc by (auto simp: task_ok_def in_global_iff global_view_eq)
    then show ?thesis using st by (intro same)
  qed
  have ok: ?thesis
    if c: "phase t = Await_global v rest" "vcall v (t_args t) = Inr rs" for v rest rs
  proof -
    note st = step_global_ok [OF c, where i = i and w = w, folded w'_def t'_def]
    have g: "in_global t" using c(1) by (simp add: in_global_iff)
    then have some: "globalValidationResults (graphQLValidity w) \<noteq> None"
      using ti by (auto simp: task_ok_def)
    have mine: "suffix (v # rest) (global_validators w)"
      "global_calls (trace w) @ map vname rest = map vname (global_validators w)"
      using ti c(1) by (simp_all add: task_ok_def)
    have some': "globalValidationResults (graphQLValidity w') \<noteq> None"
      using some st(1) by simp
    have 1: "world_ok w'"
      using wok some some' st(2,3) G mine(2)
      by (cases rest) (auto simp: world_ok_def prefix_def)
    have 2: "task_ok w' t'"
    proof (cases rest)
      case Nil
      then show ?thesis using st(4) some' by (simp add: task_ok_past)
    next
      case (Cons g gs)
      then show ?thesis
        using st(3) st(5) [OF Cons] some' mine G suffix_ConsD [of v "g # gs"]
        by (auto simp: task_ok_def)
    qed
    have 3: "task_ok w' (ts ! j)" if "j < length ts" "j \<noteq> i" for j
    proof -
      have "\<not> in_global (ts ! j)"
        using one that i g by (auto simp: one_runner_def t_def)
      then show ?thesis using some' by (simp add: task_ok_past)
    qed
    show ?thesis using 1 2 3 g by (intro enough) simp_all
  qed
  have failed: ?thesis
    if c: "phase t = Await_global v rest" "vcall v (t_args t) = Inl e" for v rest e
  proof -
    note st = step_global_failed [OF c, where i = i and w = w, folded w'_def t'_def]
    have "in_global t" using c(1) by (simp add: in_global_iff)
    then have "globalValidationResults (graphQLValidity w) \<noteq> None"
      using ti by (auto simp: task_ok_def)
    then have "task_ok w' t'"
      using st by (simp add: task_ok_past)
    then show ?thesis using st by (intro same)
  qed
  have past: ?thesis
    if c: "phase t \<noteq> Not_invoked" "\<not> in_global t"
  proof -
    note st = step_past_global [OF c, where i = i and w = w, folded w'_def t'_def]
    have "task_ok w' t'"
    proof (cases "globalValidationResults (graphQLValidity w)")
      case None
      then have "\<not> finds_context t" using ti c by (auto simp: task_ok_def)
      then show ?thesis
        using st fc by (auto simp: task_ok_def in_global_iff)
    next
      case (Some g)
      then show ?thesis using st by (simp add: task_ok_past)
    qed
    then show ?thesis using st by (intro same)
  qed
  show ?thesis
  proof (cases "phase t")
    case Not_invoked
    then show ?thesis using starts skips by blast
  next
    case (Await_global v rest)
    then show ?thesis using ok failed by (cases "vcall v (t_args t)") blast+
  next
    case (Await_local v rest)
    then show ?thesis using past by (simp add: in_global_def)
  next
    case Await_resolve
    then show ?thesis using past by (simp add: in_global_def)
  next
    case (Settled x)
    then show ?thesis using past by (simp add: in_global_def)
  qed
qed

lemma length_resume [simp]: "length (snd (resume i s)) = length (snd s)"
  by (cases s) (simp add: resume_def split_beta)

lemma global_validators_resume [simp]:
  "global_validators (fst (resume i s)) = global_validators (fst s)"
  by (cases s) (simp add: resume_def split_beta global_validators_step)

lemma closure_resume: "j < length (snd s) \<Longrightarrow> same_closure (snd (resume i s) ! j) (snd s ! j)"
proof (cases s)
  case (Pair w ts)
  assume "j < length (snd s)"
  then show ?thesis
    using step_closure [of i w "ts ! i"]
    by (cases "i = j") (auto simp: Pair resume_def split_beta same_closure_def)
qed

lemma no_global_throws_resume: "no_global_throws s \<Longrightarrow> no_global_throws (resume i s)"
  using closure_resume [of _ s i]
  by (simp add: no_global_throws_def same_closure_def)

lemma run_complete_resume:
  assumes "once_invariant s" and "no_global_throws s" and "run_complete s"
  shows "run_complete (resume i s)"
proof (cases "i < length (snd s)")
  case False
  then show ?thesis using assms by (simp add: resume_out_of_range)
next
  case True
  obtain w ts where s: "s = (w, ts)" by (cases s)
  define t where "t = ts ! i"
  define w' where "w' = fst (step i w t)"
  define t' where "t' = snd (step i w t)"
  have r: "resume i s = (w', ts[i := t'])"
    using True by (simp add: s resume_eq w'_def t'_def t_def)
  have G: "global_validators w' = global_validators w"
    by (simp add: w'_def global_validators_step)
  have i: "i < length ts" using True by (simp add: s)
  have wok: "world_ok w" and tok: "\<And>j. j < length ts \<Longrightarrow> task_ok w (ts ! j)"
    using assms by (simp_all add: once_invariant_def s)
  have ti: "task_ok w t" using tok i by (simp add: t_def)
  have rc: "global_calls (trace w) = map vname (global_validators w)"
    if "globalValidationResults (graphQLValidity w) \<noteq> None"
      "\<forall>j<length ts. \<not> in_global (ts ! j)"
    using assms(3) that by (simp add: run_complete_def s)
  have after: "\<forall>j<length ts. j \<noteq> i \<longrightarrow> \<not> in_global (ts ! j)" "\<not> in_global t'"
    if "\<forall>j<length (ts[i := t']). \<not> in_global (ts[i := t'] ! j)"
    using that i by (auto simp: nth_list_update split: if_splits)
  have same: ?thesis if "global_view w' = global_view w" and "\<not> in_global t"
    unfolding run_complete_def r fst_conv snd_conv
  proof (intro impI)
    assume a: "globalValidationResults (graphQLValidity w') \<noteq> None"
      and b: "\<forall>j<length (ts[i := t']). \<not> in_global (ts[i := t'] ! j)"
    have "\<forall>j<length ts. \<not> in_global (ts ! j)"
      using after(1) [OF b] that(2) by (auto simp: t_def)
    moreover have "globalValidationResults (graphQLValidity w) \<noteq> None"
      using a that(1) by (auto simp: global_view_eq)
    ultimately show "global_calls (trace w') = map vname (global_validators w')"
      using rc that(1) G by (simp add: global_view_eq)
  qed
  show ?thesis
  proof (cases "phase t")
    case Not_invoked
    show ?thesis
    proof (cases "finds_context t \<and> globalValidationResults (graphQLValidity w) = None")
      case True
      note st = step_begin [OF Not_invoked, where i = i and w = w, folded w'_def t'_def]
      show ?thesis
        unfolding run_complete_def r fst_conv snd_conv
      proof (intro impI)
        assume b: "\<forall>j<length (ts[i := t']). \<not> in_global (ts[i := t'] ! j)"
        then have "global_validators w = []"
          using after(2) st(4) True by simp
        then show "global_calls (trace w') = map vname (global_validators w')"
          using st(3) True wok G by (simp add: world_ok_def)
      qed
    next
      case False
      then show ?thesis
        using step_skip [OF Not_invoked, where i = i and w = w, folded w'_def t'_def] Not_invoked
        by (intro same) (auto simp: in_global_def)
    qed
  next
    case (Await_global v rest)
    have mine: "suffix (v # rest) (global_validators w)"
      "global_calls (trace w) @ map vname rest = map vname (global_validators w)"
      using ti Await_global by (simp_all add: task_ok_def)
    then have "v \<in> set (global_validators w)"
      using set_mono_suffix [OF mine(1)] by auto
    then obtain rs where rs: "vcall v (t_args t) = Inr rs"
      using assms(2) i by (auto simp: no_global_throws_def s t_def)
    note st = step_global_ok [OF Await_global rs, where i = i and w = w, folded w'_def t'_def]
    show ?thesis
      unfolding run_complete_def r fst_conv snd_conv
    proof (intro impI)
      assume b: "\<forall>j<length (ts[i := t']). \<not> in_global (ts[i := t'] ! j)"
      then have "rest = []" using after(2) st(4) by simp
      then show "global_calls (trace w') = map vname (global_validators w')"
        using st(3) mine(2) G by simp
    qed
  next
    case (Await_local v rest)
    then show ?thesis
      using step_past_global [where t = t and i = i and w = w, folded w'_def t'_def]
      by (intro same) (simp_all add: in_global_def)
  next
    case Await_resolve
    then show ?thesis
      using step_past_global [where t = t and i = i and w = w, folded w'_def t'_def]
      by (intro same) (simp_all add: in_global_def)
  next
    case (Settled x)
    then show ?thesis
      using step_past_global [where t = t and i = i and w = w, folded w'_def t'_def]
      by (intro same) (simp_all add: in_global_def)
  qed
qed

lemma fresh_request_invariant:
  assumes "fresh_request s"
  shows "once_invariant s" and "run_complete s"
  using assms
  by (auto simp: fresh_request_def once_invariant_def world_ok_def task_ok_def one_runner_def
        run_complete_def in_global_def)

lemma exec_invariant:
  assumes "once_invariant s"
  shows "once_invariant (exec sched s)"
  using assms by (induction sched arbitrary: s) (simp_all add: once_invariant_resume)

lemma exec_complete:
  assumes "once_invariant s" and "no_global_throws s" and "run_complete s"
  shows "run_complete (exec sched s)"
  using assms
  by (induction sched arbitrary: s)
     (simp_all add: once_invariant_resume no_global_throws_resume run_complete_resume)

lemma global_validators_exec [simp]:
  "global_validators (fst (exec sched s)) = global_validators (fst s)"
  by (induction sched arbitrary: s) simp_all

lemma length_exec [simp]: "length (snd (exec sched s)) = length (snd s)"
  by (induction sched arbitrary: s) simp_all


lemma began_once:
  assumes "once_invariant s"
  shows "began_runs (trace (fst s)) \<le> 1"
    and "j < length (snd s) \<Longrightarrow> finds_context (snd s ! j) \<Longrightarrow> phase (snd s ! j) \<noteq> Not_invoked
         \<Longrightarrow> globalValidationResults (graphQLValidity (fst s)) \<noteq> None
             \<and> began_runs (trace (fst s)) = 1"
    and "prefix (global_calls (trace (fst s))) (map vname (global_validators (fst s)))"
  using assms
  by (auto simp: once_invariant_def world_ok_def task_ok_def)

lemma same_closure_trans: "same_closure a b \<Longrightarrow> same_closure b c \<Longrightarrow> same_closure a c"
  by (simp add: same_closure_def)

lemma closure_exec: "j < length (snd s) \<Longrightarrow> same_closure (snd (exec sched s) ! j) (snd s ! j)"
proof (induction sched arbitrary: s)
  case Nil
  then show ?case by (simp add: same_closure_def)
next
  case (Cons i sched)
  have "same_closure (snd (exec sched (resume i s)) ! j) (snd (resume i s) ! j)"
    using Cons.prems by (intro Cons.IH) simp
  then show ?case
    using closure_resume [of j s i] Cons.prems same_closure_trans by auto
qed

lemma finds_context_exec:
  "j < length (snd s) \<Longrightarrow> finds_context (snd (exec sched s) ! j) = finds_context (snd s ! j)"
  by (simp add: closure_exec finds_context_closure)

subsection \<open>The run of the global validators\<close>

text \<open>
  C1 as the code has it. In a request that starts with \<open>___globalValidationResults\<close>
  undefined, whatever the interleaving of the invocations: the run of the global
  validators is begun at most once, and exactly once as soon as an invocation that
  finds the context has started; the global validators called are, in order, a prefix of
  the registered ones, so each is called at most once; and when no global validator
  throws, at least one invocation finds the context and all invocations have settled,
  each registered global validator was called exactly once. The step that finds
  \<open>___globalValidationResults\<close> undefined sets it to the empty list and is suspended
  at the first global validator; a step that finds it defined begins no run and calls no
  global validator.
\<close>

theorem global_validators_run_once:
  assumes "fresh_request s"
  shows "began_runs (trace (fst (exec sched s))) \<le> 1
       \<and> (\<forall>j<length (snd s). finds_context (snd s ! j) \<longrightarrow>
            phase (snd (exec sched s) ! j) \<noteq> Not_invoked \<longrightarrow>
              began_runs (trace (fst (exec sched s))) = 1)
       \<and> prefix (global_calls (trace (fst (exec sched s))))
            (map vname (global_validators (fst s)))
       \<and> (no_global_throws s \<longrightarrow>
          (\<exists>t\<in>set (snd s). finds_context t) \<longrightarrow>
          (\<forall>t\<in>set (snd (exec sched s)). settled t) \<longrightarrow>
            global_calls (trace (fst (exec sched s))) = map vname (global_validators (fst s)))
       \<and> (\<forall>i w t. phase t = Not_invoked \<longrightarrow> finds_context t \<longrightarrow>
            globalValidationResults (graphQLValidity w) = None \<longrightarrow>
              globalValidationResults (graphQLValidity (fst (step i w t))) = Some []
            \<and> began_runs (trace (fst (step i w t))) = Suc (began_runs (trace w))
            \<and> (\<forall>g gs. global_validators w = g # gs \<longrightarrow>
                  phase (snd (step i w t)) = Await_global g gs))
       \<and> (\<forall>i w t. phase t = Not_invoked \<longrightarrow>
            globalValidationResults (graphQLValidity w) \<noteq> None \<longrightarrow>
              began_runs (trace (fst (step i w t))) = began_runs (trace w)
            \<and> global_calls (trace (fst (step i w t))) = global_calls (trace w)
            \<and> \<not> in_global (snd (step i w t)))"
proof -
  let ?s = "exec sched s"
  have inv: "once_invariant ?s"
    using assms by (simp add: fresh_request_invariant exec_invariant)
  have 1: "began_runs (trace (fst ?s)) \<le> 1"
    and 3: "prefix (global_calls (trace (fst ?s))) (map vname (global_validators (fst s)))"
    using began_once(1,3) [OF inv] by simp_all
  have 2: "began_runs (trace (fst ?s)) = 1
         \<and> globalValidationResults (graphQLValidity (fst ?s)) \<noteq> None"
    if "j < length (snd s)" "finds_context (snd s ! j)" "phase (snd ?s ! j) \<noteq> Not_invoked" for j
    using began_once(2) [OF inv, of j] that by (simp add: finds_context_exec)
  have 4: "global_calls (trace (fst ?s)) = map vname (global_validators (fst s))"
    if nt: "no_global_throws s" and ex: "\<exists>t\<in>set (snd s). finds_context t"
      and all: "\<forall>t\<in>set (snd ?s). settled t"
  proof -
    have rc: "run_complete ?s"
      using assms nt by (simp add: fresh_request_invariant exec_complete)
    obtain j where j: "j < length (snd s)" "finds_context (snd s ! j)"
      using ex by (metis in_set_conv_nth)
    then have "settled (snd ?s ! j)" using all by simp
    then have "phase (snd ?s ! j) \<noteq> Not_invoked" by (auto simp: settled_def)
    then have some: "globalValidationResults (graphQLValidity (fst ?s)) \<noteq> None"
      using 2 j by blast
    have "\<forall>j<length (snd ?s). \<not> in_global (snd ?s ! j)"
      using all by (auto simp: settled_def in_global_def split: phase.splits)
    then show ?thesis using rc some by (simp add: run_complete_def)
  qed
  have 5: "globalValidationResults (graphQLValidity (fst (step i w t))) = Some []
         \<and> began_runs (trace (fst (step i w t))) = Suc (began_runs (trace w))
         \<and> (\<forall>g gs. global_validators w = g # gs \<longrightarrow>
               phase (snd (step i w t)) = Await_global g gs)"
    if "phase t = Not_invoked" "finds_context t"
      "globalValidationResults (graphQLValidity w) = None" for i w t
    using step_begin [OF that] by simp
  have 6: "began_runs (trace (fst (step i w t))) = began_runs (trace w)
         \<and> global_calls (trace (fst (step i w t))) = global_calls (trace w)
         \<and> \<not> in_global (snd (step i w t))"
    if "phase t = Not_invoked" "globalValidationResults (graphQLValidity w) \<noteq> None" for i w t
    using step_skip [OF that(1), of w i] that(2) by (simp add: global_view_eq)
  show ?thesis
    using 1 2 3 4 5 6 by blast
qed

lemma two_fields_run:
  "map phase (snd (exec [0, 1, 1, 0, 1, 0, 0, 1, 1, 0, 0] two_fields)) =
     [Settled (Inr (Num 42)),
      Settled (Inr (DataValidationResult (Num 42) (Some [[(''message'', Str ''bad'')]])))]"
  "trace (fst (exec [0, 1, 1, 0, 1, 0, 0, 1, 1, 0, 0] two_fields)) =
     [Began_global_run 0, Called_global 0 ''global'', Called_local 1 ''every'',
      Called_local 1 ''byType'', Called_local 0 ''every'', Called_local 1 ''byField'',
      Called_local 0 ''byType'', Called_local 0 ''byField'', Called_resolve 1,
      Called_resolve 0]"
  by (simp_all add: two_fields_def example_defs run_defs)

theorem global_validators_run_once_witness:
  "fresh_request two_fields \<and> no_global_throws two_fields
   \<and> list_all settled (snd (exec [0, 1, 1, 0, 1, 0, 0, 1, 1, 0, 0] two_fields))
   \<and> list_all finds_context (snd two_fields)
   \<and> began_runs (trace (fst (exec [0, 1, 1, 0, 1, 0, 0, 1, 1, 0, 0] two_fields))) = 1
   \<and> global_calls (trace (fst (exec [0, 1, 1, 0, 1, 0, 0, 1, 1, 0, 0] two_fields))) = [''global'']"
proof -
  let ?s = "exec [0, 1, 1, 0, 1, 0, 0, 1, 1, 0, 0] two_fields"
  have f: "fresh_request two_fields"
    by (simp add: fresh_request_def two_fields_def example_defs)
  have n: "no_global_throws two_fields"
    by (simp add: no_global_throws_def two_fields_def example_defs global_validators_def
          lookup_def or_empty_def)
  have ph: "map phase (snd ?s) =
     [Settled (Inr (Num 42)),
      Settled (Inr (DataValidationResult (Num 42) (Some [[(''message'', Str ''bad'')]])))]"
    by (rule two_fields_run)
  have st: "\<forall>t\<in>set (snd ?s). settled t"
  proof
    fix t assume "t \<in> set (snd ?s)"
    then have "phase t \<in> set (map phase (snd ?s))" by simp
    then show "settled t" unfolding ph by (auto simp: settled_def)
  qed
  have fc0: "list_all finds_context (snd two_fields)"
    by (simp add: two_fields_def example_defs finds_context_def)
  then have fc: "\<exists>t\<in>set (snd two_fields). finds_context t"
    by (simp add: two_fields_def)
  have g: "map vname (global_validators (fst two_fields)) = [''global'']"
    by (simp add: two_fields_def example_defs global_validators_def lookup_def or_empty_def)
  have b: "began_runs (trace (fst ?s)) = 1"
    unfolding two_fields_run by simp
  show ?thesis
    using f n st fc fc0 b g global_validators_run_once [OF f, of "[0, 1, 1, 0, 1, 0, 0, 1, 1, 0, 0]"]
    by (simp add: list_all_iff)
qed

text \<open>
  C1 as stated fails when a global validator throws: the validators registered after it
  are never called, neither by the invocation that began the run nor by a later one.
\<close>

theorem global_validators_not_all_run_counterexample:
  "fresh_request throwing_globals
   \<and> list_all finds_context (snd throwing_globals)
   \<and> map vname (global_validators (fst throwing_globals)) = [''g1'', ''g2'']
   \<and> map phase (snd (exec [0, 0] throwing_globals)) = [Settled (Inl (Error ''bang'' []))]
   \<and> global_calls (trace (fst (exec [0, 0] throwing_globals))) = [''g1'']
   \<and> global_calls (trace (fst (exec [0, 0, 0, 0] throwing_globals))) = [''g1'']"
  by (simp add: throwing_globals_def example_defs run_defs fresh_request_def finds_context_def
        global_validators_def)

lemma step_keeps_global:
  assumes "globalValidationResults (graphQLValidity w) = Some g"
  shows "\<exists>g'. globalValidationResults (graphQLValidity (fst (step i w t))) = Some g'
              \<and> prefix g g'"
    and "began_runs (trace (fst (step i w t))) = began_runs (trace w)"
proof -
  have "(\<exists>g'. globalValidationResults (graphQLValidity (fst (step i w t))) = Some g'
              \<and> prefix g g')
      \<and> began_runs (trace (fst (step i w t))) = began_runs (trace w)"
  proof (cases "phase t")
    case Not_invoked
    have v: "globalValidationResults (graphQLValidity (fst (step i w t))) = Some g"
    proof (cases "finds_context t")
      case True
      then show ?thesis
        using assms Not_invoked
        by (cases "t_edition t")
           (simp_all add: step_Not_invoked invoke_finds validate_world or_empty_def)
    next
      case False
      then show ?thesis
        using assms Not_invoked
        by (cases "t_edition t")
           (simp_all add: step_Not_invoked invoke_no_context call_resolve_world)
    qed
    show ?thesis
      using v step_skip(1) [OF Not_invoked, of w i] assms by (simp add: global_view_eq)
  next
    case (Await_global v rest)
    show ?thesis
    proof (cases "vcall v (t_args t)")
      case (Inl e)
      then show ?thesis
        using step_global_failed [OF Await_global Inl, where i = i and w = w] assms
        by (simp add: global_view_eq)
    next
      case (Inr rs)
      then show ?thesis
        using step_global_ok [OF Await_global Inr, where i = i and w = w] assms by simp
    qed
  next
    case (Await_local v rest)
    then show ?thesis
      using step_past_global [of t i w] assms by (simp add: in_global_def global_view_eq)
  next
    case Await_resolve
    then show ?thesis
      using step_past_global [of t i w] assms by (simp add: in_global_def global_view_eq)
  next
    case (Settled x)
    then show ?thesis
      using step_past_global [of t i w] assms by (simp add: in_global_def global_view_eq)
  qed
  then show "\<exists>g'. globalValidationResults (graphQLValidity (fst (step i w t))) = Some g'
              \<and> prefix g g'"
    and "began_runs (trace (fst (step i w t))) = began_runs (trace w)"
    by simp_all
qed

lemma resume_keeps_global:
  assumes "globalValidationResults (graphQLValidity (fst s)) = Some g"
  shows "\<exists>g'. globalValidationResults (graphQLValidity (fst (resume i s))) = Some g'
              \<and> prefix g g'"
    and "began_runs (trace (fst (resume i s))) = began_runs (trace (fst s))"
  using assms step_keeps_global [of "fst s" g i "snd s ! i"]
  by (cases s; cases "i < length (snd s)"; simp add: resume_eq resume_out_of_range)+

lemma exec_keeps_global:
  assumes "globalValidationResults (graphQLValidity (fst s)) = Some g"
  shows "(\<exists>g'. globalValidationResults (graphQLValidity (fst (exec sched s))) = Some g'
              \<and> prefix g g')
       \<and> began_runs (trace (fst (exec sched s))) = began_runs (trace (fst s))"
  using assms
proof (induction sched arbitrary: s g)
  case Nil
  then show ?case by simp
next
  case (Cons i sched)
  obtain g1 where g1: "globalValidationResults (graphQLValidity (fst (resume i s))) = Some g1"
    "prefix g g1"
    using resume_keeps_global(1) [OF Cons.prems] by blast
  show ?case
    using Cons.IH [OF g1(1)] g1(2) resume_keeps_global(2) [OF Cons.prems, of i]
    by (auto intro: prefix_order.trans)
qed

text \<open>
  C10. Once \<open>___globalValidationResults\<close> is defined it stays defined under every
  further interleaving and only grows, so that the violations it holds stay in it and
  are part of the errors the response merger produces; no further run of the global
  validators is begun. A task whose awaited global validator rejects is settled with
  that error (or with the error of the wrapper when \<open>wrapErrors\<close> is set) and leaves
  the context as it is.
\<close>

theorem global_results_survive_failure:
  assumes "globalValidationResults (graphQLValidity (fst s)) = Some g"
  shows "(\<exists>g'. globalValidationResults (graphQLValidity (fst (exec sched s))) = Some g'
            \<and> prefix g g'
            \<and> (\<forall>l data. validationResults (graphQLValidity (fst (exec sched s))) = Some l \<longrightarrow>
                  (\<exists>later. getResponseValidationResults (graphQLValidity (fst (exec sched s))) data =
                     Inr (data\<lparr>response_errors :=
                            Some (or_empty (response_errors data) @ map message_only l
                                  @ map message_only g @ later)\<rparr>))))
       \<and> began_runs (trace (fst (exec sched s))) = began_runs (trace (fst s))
       \<and> (\<forall>i w t v rest e. phase t = Await_global v rest \<longrightarrow> vcall v (t_args t) = Inl e \<longrightarrow>
            graphQLValidity (fst (step i w t)) = graphQLValidity w
          \<and> (\<not> wrapErrors (t_config t) \<longrightarrow> phase (snd (step i w t)) = Settled (Inl e))
          \<and> (\<forall>wrapper. wrapErrors (t_config t) \<longrightarrow>
                unhandledErrorWrapper (t_config t) = Some wrapper \<longrightarrow>
                phase (snd (step i w t)) = Settled (Inl (fst (wrapper e (env w))))))"
proof -
  obtain g' where g': "globalValidationResults (graphQLValidity (fst (exec sched s))) = Some g'"
    "prefix g g'"
    and b: "began_runs (trace (fst (exec sched s))) = began_runs (trace (fst s))"
    using exec_keeps_global [OF assms, of sched] by blast
  obtain zs where zs: "g' = g @ zs" using g'(2) by (auto simp: prefix_def)
  have m: "\<exists>later. getResponseValidationResults (graphQLValidity (fst (exec sched s))) data =
             Inr (data\<lparr>response_errors :=
                    Some (or_empty (response_errors data) @ map message_only l
                          @ map message_only g @ later)\<rparr>)"
    if "validationResults (graphQLValidity (fst (exec sched s))) = Some l" for l data
    using that g'(1) zs
    by (intro exI [of _ "map message_only zs"])
       (simp add: getResponseValidationResults_def or_empty_def)
  have f: "graphQLValidity (fst (step i w t)) = graphQLValidity w
          \<and> (\<not> wrapErrors (t_config t) \<longrightarrow> phase (snd (step i w t)) = Settled (Inl e))
          \<and> (\<forall>wrapper. wrapErrors (t_config t) \<longrightarrow>
                unhandledErrorWrapper (t_config t) = Some wrapper \<longrightarrow>
                phase (snd (step i w t)) = Settled (Inl (fst (wrapper e (env w)))))"
    if "phase t = Await_global v rest" "vcall v (t_args t) = Inl e" for i w t v rest e
    using that
    by (simp add: step_def catch_block_world) (simp add: catch_block_def split_beta)
  show ?thesis
    using g' b m f by blast
qed

lemma failing_globals_run:
  "globalValidationResults (graphQLValidity (fst (exec [0, 0] failing_globals))) =
     Some [[(''message'', Str ''x'')]]"
  "graphQLValidity (fst (exec [0, 1, 1, 1, 1, 1] (exec [0, 0] failing_globals))) =
     \<lparr>validationResults = Some [[(''message'', Str ''a'')], [(''message'', Str ''b'')],
                                [(''message'', Str ''c'')]],
      globalValidationResults = Some [[(''message'', Str ''x'')]],
      profilingData = Some []\<rparr>"
  "map phase (snd (exec [0, 1, 1, 1, 1, 1] (exec [0, 0] failing_globals))) =
     [Settled (Inl (Error ''bang'' [])),
      Settled (Inr (DataValidationResult (Num 42) (Some [[(''message'', Str ''bad'')]])))]"
  "trace (fst (exec [0, 1, 1, 1, 1, 1] (exec [0, 0] failing_globals))) =
     [Began_global_run 0, Called_global 0 ''g1'', Called_global 0 ''g2'',
      Called_local 1 ''every'', Called_local 1 ''byType'', Called_local 1 ''byField'',
      Called_resolve 1]"
  by (simp_all add: failing_globals_def example_defs run_defs)

theorem global_results_survive_failure_witness:
  "globalValidationResults (graphQLValidity (fst (exec [0, 0] failing_globals))) =
     Some [[(''message'', Str ''x'')]]
   \<and> globalValidationResults
       (graphQLValidity (fst (exec [0, 1, 1, 1, 1, 1] (exec [0, 0] failing_globals)))) =
       Some [[(''message'', Str ''x'')]]
   \<and> began_runs (trace (fst (exec [0, 1, 1, 1, 1, 1] (exec [0, 0] failing_globals)))) = 1
   \<and> map phase (snd (exec [0, 1, 1, 1, 1, 1] (exec [0, 0] failing_globals))) =
       [Settled (Inl (Error ''bang'' [])),
        Settled (Inr (DataValidationResult (Num 42) (Some [[(''message'', Str ''bad'')]])))]
   \<and> getResponseValidationResults
       (graphQLValidity (fst (exec [0, 1, 1, 1, 1, 1] (exec [0, 0] failing_globals))))
       \<lparr>response_data = Num 42, response_errors = None\<rparr> =
       Inr \<lparr>response_data = Num 42,
            response_errors = Some [[(''message'', Str ''a'')], [(''message'', Str ''b'')],
                                    [(''message'', Str ''c'')], [(''message'', Str ''x'')]]\<rparr>"
proof -
  let ?s = "exec [0, 1, 1, 1, 1, 1] (exec [0, 0] failing_globals)"
  have h: "globalValidationResults (graphQLValidity (fst (exec [0, 0] failing_globals))) =
             Some [[(''message'', Str ''x'')]]"
    by (rule failing_globals_run)
  have b: "began_runs (trace (fst (exec [0, 0] failing_globals))) = 1"
    by (simp add: failing_globals_def example_defs run_defs)
  have "began_runs (trace (fst ?s)) = began_runs (trace (fst (exec [0, 0] failing_globals)))"
    using global_results_survive_failure [OF h, of "[0, 1, 1, 1, 1, 1]"] by blast
  then have 1: "began_runs (trace (fst ?s)) = 1"
    using b by simp
  have 2: "globalValidationResults (graphQLValidity (fst ?s)) = Some [[(''message'', Str ''x'')]]"
    unfolding failing_globals_run by simp
  have 3: "getResponseValidationResults (graphQLValidity (fst ?s))
             \<lparr>response_data = Num 42, response_errors = None\<rparr> =
           Inr \<lparr>response_data = Num 42,
                response_errors = Some [[(''message'', Str ''a'')], [(''message'', Str ''b'')],
                                        [(''message'', Str ''c'')], [(''message'', Str ''x'')]]\<rparr>"
    unfolding failing_globals_run
    by (simp add: getResponseValidationResults_def or_empty_def message_only_def property_def)
  show ?thesis
    using h 1 2 3 failing_globals_run(3) by blast
qed

subsection \<open>Calls made by a task: invariant\<close>

lemma selected_cong:
  "FieldValidationDefinitions w' = FieldValidationDefinitions w \<Longrightarrow> same_closure t' t \<Longrightarrow>
   selected w' t' = selected w t"
  by (auto simp: selected_def parent_of_def same_closure_def split: edition.splits)

lemma validate_task:
  "validators (snd (validate i w t p)) =
     fst (getValidators (FieldValidationDefinitions w) (t_field_type t) (t_field_name t) p)"
  using validate_locals [of i w t p] by (simp add: same_locals_def)

lemma validate_trace:
  "trace (fst (validate i w t p)) =
     (let vals = fst (getValidators (FieldValidationDefinitions w) (t_field_type t)
                        (t_field_name t) p);
          first = (case vals of [] \<Rightarrow> Called_resolve i | v # vs \<Rightarrow> Called_local i (vname v))
      in case globalValidationResults (graphQLValidity w) of
           None \<Rightarrow>
             trace w @ [Began_global_run i,
                        case global_validators w of
                          [] \<Rightarrow> first
                        | g # gs \<Rightarrow> Called_global i (vname g)]
         | Some r \<Rightarrow> trace w @ [first])"
  by (simp add: validate_eq Let_def next_local_world next_global_world log_event_simps
        global_validators_def split: option.splits list.splits)

lemma validate_phase:
  "phase (snd (validate i w t p)) =
     (let vals = fst (getValidators (FieldValidationDefinitions w) (t_field_type t)
                        (t_field_name t) p);
          local = (case vals of [] \<Rightarrow> Await_resolve | v # vs \<Rightarrow> Await_local v vs)
      in case globalValidationResults (graphQLValidity w) of
           None \<Rightarrow> (case global_validators w of [] \<Rightarrow> local | g # gs \<Rightarrow> Await_global g gs)
         | Some r \<Rightarrow> local)"
  by (simp add: validate_eq Let_def next_local_phase next_global_phase
        global_validators_def split: option.splits list.splits)

lemma step_invoke_found:
  assumes "phase t = Not_invoked" and "finds_context t"
  shows "\<exists>w1 t1. step i w t = validate i w1 t1 (parent_of t)
           \<and> trace w1 = trace w \<and> graphQLValidity w1 = graphQLValidity w
           \<and> FieldValidationDefinitions w1 = FieldValidationDefinitions w
           \<and> t_field_type t1 = t_field_type t \<and> t_field_name t1 = t_field_name t"
proof (cases "t_edition t")
  case Schema_wrapper
  then show ?thesis
    using assms
    by (intro exI [of _ w] exI [of _ "t\<lparr>found_validity := True\<rparr>"])
       (simp add: step_Not_invoked invoke_finds parent_of_def)
next
  case Index
  then show ?thesis
    using assms
    by (intro exI [of _ "w\<lparr>env := env w\<lparr>clock_reads := Suc (clock_reads (env w))\<rparr>\<rparr>"]
          exI [of _ "t\<lparr>pst := clock (env w) (clock_reads (env w)),
               ast := fst (snd (scan_args (t_args t) (False, None, None))),
               found_validity := True\<rparr>"])
       (simp add: step_Not_invoked invoke_finds parent_of_def)
qed

lemma getValidators_selected:
  "fst (getValidators (FieldValidationDefinitions w) (t_field_type t) (t_field_name t)
         (parent_of t)) = selected w t"
  by (simp add: getValidators_def selected_def)

lemma calls_ok_own_step:
  assumes "calls_ok i w t"
  shows "calls_ok i (fst (step i w t)) (snd (step i w t))"
proof -
  let ?w = "fst (step i w t)" and ?t = "snd (step i w t)"
  have fc: "finds_context ?t = finds_context t"
    by (rule finds_context_step)
  have sel: "selected ?w ?t = selected w t"
    by (rule selected_cong) (simp_all add: step_definitions step_closure)
  have keep: "validators ?t = validators t" if "phase t \<noteq> Not_invoked"
    using step_locals [of t i w] that by (simp add: same_locals_def)
  have rejected: ?thesis
    if "step i w t = catch_block w t e" "phase t \<noteq> Not_invoked"
      "prefix (local_calls i (trace w)) (expected_locals t)" "resolve_calls i (trace w) \<le> 1"
      "finds_context t \<longrightarrow> validators t = selected w t" for e
  proof -
    obtain e' where "phase (snd (catch_block w t e)) = Settled (Inl e')"
      using catch_block_phase [of w t e] by blast
    then have "phase ?t = Settled (Inl e')"
      using that(1) by simp
    moreover have "trace ?w = trace w"
      using that(1) by (simp add: catch_block_world)
    ultimately show ?thesis
      using that(3-5) fc keep [OF that(2)]
      unfolding calls_ok_def sel by (auto simp: expected_locals_def)
  qed
  show ?thesis
  proof (cases "phase t")
    case Not_invoked
    show ?thesis
    proof (cases "finds_context t")
      case True
      obtain w1 t1 where s: "step i w t = validate i w1 t1 (parent_of t)"
        and w1: "trace w1 = trace w" "graphQLValidity w1 = graphQLValidity w"
          "FieldValidationDefinitions w1 = FieldValidationDefinitions w"
          "t_field_type t1 = t_field_type t" "t_field_name t1 = t_field_name t"
        using step_invoke_found [OF Not_invoked True] by blast
      have gv: "global_validators w1 = global_validators w"
        using w1 by (simp add: global_validators_def)
      have vals: "fst (getValidators (FieldValidationDefinitions w1) (t_field_type t1)
                    (t_field_name t1) (parent_of t)) = selected w t"
        using w1 getValidators_selected [of w t] by simp
      have v: "validators ?t = selected w t"
        by (simp add: s validate_task vals)
      have tr: "trace ?w =
                  (let first = (case selected w t of
                                  [] \<Rightarrow> Called_resolve i
                                | v # vs \<Rightarrow> Called_local i (vname v))
                   in case globalValidationResults (graphQLValidity w) of
                        None \<Rightarrow>
                          trace w @ [Began_global_run i,
                                     case global_validators w of
                                       [] \<Rightarrow> first
                                     | g # gs \<Rightarrow> Called_global i (vname g)]
                      | Some r \<Rightarrow> trace w @ [first])"
        unfolding s validate_trace vals gv w1 by (simp add: getValidators_selected)
      have ph: "phase ?t =
                  (let local = (case selected w t of
                                  [] \<Rightarrow> Await_resolve
                                | v # vs \<Rightarrow> Await_local v vs)
                   in case globalValidationResults (graphQLValidity w) of
                        None \<Rightarrow> (case global_validators w of
                                   [] \<Rightarrow> local
                                 | g # gs \<Rightarrow> Await_global g gs)
                      | Some r \<Rightarrow> local)"
        unfolding s validate_phase vals gv w1 by (simp add: getValidators_selected)
      have c: "local_calls i (trace w) = []" "resolve_calls i (trace w) = 0"
        using assms Not_invoked by (simp_all add: calls_ok_def)
      show ?thesis
        using True fc v c
        unfolding calls_ok_def sel tr ph
        by (simp add: Let_def expected_locals_def split: option.splits list.splits)
    next
      case False
      then show ?thesis
        using assms Not_invoked fc
        by (cases "t_edition t")
           (simp_all add: calls_ok_def step_Not_invoked invoke_no_context call_resolve_eq
              log_event_simps expected_locals_def)
    qed
  next
    case (Await_global v rest)
    then have c: "finds_context t" "local_calls i (trace w) = []"
      "resolve_calls i (trace w) = 0" "validators t = selected w t"
      using assms by (simp_all add: calls_ok_def)
    show ?thesis
    proof (cases "vcall v (t_args t)")
      case (Inl e)
      then show ?thesis
        using Await_global c by (intro rejected [of e]) (simp_all add: step_def)
    next
      case (Inr rs)
      have tr: "trace ?w =
                  trace w @ [case rest of
                               [] \<Rightarrow> (case validators t of
                                        [] \<Rightarrow> Called_resolve i
                                      | v # vs' \<Rightarrow> Called_local i (vname v))
                             | g # gs \<Rightarrow> Called_global i (vname g)]"
        and ph: "phase ?t =
                  (case rest of
                     [] \<Rightarrow> (case validators t of
                              [] \<Rightarrow> Await_resolve
                            | v # vs' \<Rightarrow> Await_local v vs')
                   | v # vs' \<Rightarrow> Await_global v vs')"
        using Await_global Inr
        by (simp_all add: step_def next_global_world next_global_phase)
      show ?thesis
        using c fc keep Await_global
        unfolding calls_ok_def sel tr ph
        by (simp add: expected_locals_def split: list.splits)
    qed
  next
    case (Await_local v rest)
    then have c: "finds_context t"
      "local_calls i (trace w) @ map vname rest = map vname (validators t)"
      "resolve_calls i (trace w) = 0" "validators t = selected w t"
      using assms by (simp_all add: calls_ok_def)
    show ?thesis
    proof (cases "vcall v (t_args t)")
      case (Inl e)
      have "prefix (local_calls i (trace w)) (expected_locals t)"
        using c by (metis expected_locals_def prefixI)
      then show ?thesis
        using Await_local Inl c by (intro rejected [of e]) (simp_all add: step_def)
    next
      case (Inr rs)
      have tr: "trace ?w =
                  trace w @ [case rest of
                               [] \<Rightarrow> Called_resolve i
                             | v # vs' \<Rightarrow> Called_local i (vname v)]"
        and ph: "phase ?t = (case rest of [] \<Rightarrow> Await_resolve | v # vs' \<Rightarrow> Await_local v vs')"
        using Await_local Inr
        by (simp_all add: step_def next_local_world next_local_phase)
      show ?thesis
        using c fc keep Await_local
        unfolding calls_ok_def sel tr ph
        by (auto simp: expected_locals_def split: list.splits)
    qed
  next
    case Await_resolve
    then have c: "local_calls i (trace w) = expected_locals t"
      "resolve_calls i (trace w) = 1" "finds_context t \<longrightarrow> validators t = selected w t"
      using assms by (simp_all add: calls_ok_def)
    show ?thesis
    proof (cases "t_resolve t (t_args t)")
      case (Inl e)
      then show ?thesis
        using Await_resolve c by (intro rejected [of e]) (simp_all add: step_def)
    next
      case (Inr out)
      have tr: "trace ?w = trace w" and ph: "\<exists>x. phase ?t = Settled (Inr x)"
        using Await_resolve Inr by (simp_all add: step_def finish_world finish_phase)
      have ex: "expected_locals ?t = expected_locals t"
        using fc keep Await_resolve by (simp add: expected_locals_def)
      show ?thesis
        using c fc keep Await_resolve ph
        unfolding calls_ok_def sel tr ex
        by auto
    qed
  next
    case (Settled r)
    then show ?thesis using assms by (simp add: step_def)
  qed
qed


lemma step_trace_others:
  assumes "k \<noteq> i"
  shows "local_calls k (trace (fst (step i w t))) = local_calls k (trace w)
       \<and> resolve_calls k (trace (fst (step i w t))) = resolve_calls k (trace w)"
proof (cases "phase t")
  case Not_invoked
  show ?thesis
  proof (cases "finds_context t")
    case True
    obtain w1 t1 where s: "step i w t = validate i w1 t1 (parent_of t)"
      and w1: "trace w1 = trace w" "graphQLValidity w1 = graphQLValidity w"
      using step_invoke_found [OF Not_invoked True] by blast
    show ?thesis
      using assms
      by (simp add: s validate_trace Let_def w1 split: option.splits list.splits)
  next
    case False
    then show ?thesis
      using assms Not_invoked
      by (cases "t_edition t")
         (simp_all add: step_Not_invoked invoke_no_context call_resolve_world)
  qed
next
  case (Await_global v rest)
  then show ?thesis
    using assms
    by (simp add: step_def catch_block_world next_global_world split: sum.splits list.splits)
next
  case (Await_local v rest)
  then show ?thesis
    using assms
    by (simp add: step_def catch_block_world next_local_world split: sum.splits list.splits)
next
  case Await_resolve
  then show ?thesis
    by (simp add: step_def catch_block_world finish_world split: sum.splits)
next
  case (Settled r)
  then show ?thesis by (simp add: step_def)
qed

lemma calls_ok_other_step:
  assumes "k \<noteq> i" and "calls_ok k w u"
  shows "calls_ok k (fst (step i w t)) u"
proof -
  have "selected (fst (step i w t)) u = selected w u"
    by (rule selected_cong) (simp_all add: step_definitions same_closure_def)
  then show ?thesis
    using assms(2) step_trace_others [OF assms(1), of w t]
    by (simp add: calls_ok_def cong: phase.case_cong sum.case_cong)
qed

lemma calls_invariant_resume:
  assumes "calls_invariant s"
  shows "calls_invariant (resume i s)"
proof (cases "i < length (snd s)")
  case False
  then show ?thesis using assms by (simp add: resume_out_of_range)
next
  case True
  obtain w ts where s: "s = (w, ts)" by (cases s)
  have i: "i < length ts" using True by (simp add: s)
  have "calls_ok k (fst (step i w (ts ! i))) (ts[i := snd (step i w (ts ! i))] ! k)"
    if "k < length ts" for k
  proof (cases "k = i")
    case True
    then show ?thesis
      using assms i calls_ok_own_step [of i w "ts ! i"]
      by (simp add: calls_invariant_def s)
  next
    case False
    then show ?thesis
      using assms that calls_ok_other_step [of k i w "ts ! k" "ts ! i"]
      by (simp add: calls_invariant_def s)
  qed
  then show ?thesis
    using i by (simp add: calls_invariant_def s resume_eq)
qed

lemma calls_invariant_exec: "calls_invariant s \<Longrightarrow> calls_invariant (exec sched s)"
  by (induction sched arbitrary: s) (simp_all add: calls_invariant_resume)

lemma fresh_request_calls: "fresh_request s \<Longrightarrow> calls_invariant s"
  by (simp add: fresh_request_def calls_invariant_def calls_ok_def)

lemma definitions_exec [simp]:
  "FieldValidationDefinitions (fst (exec sched s)) = FieldValidationDefinitions (fst s)"
proof (induction sched arbitrary: s)
  case Nil
  then show ?case by simp
next
  case (Cons i sched)
  have "FieldValidationDefinitions (fst (resume i s)) = FieldValidationDefinitions (fst s)"
    by (cases s) (simp add: resume_def split_beta step_definitions)
  then show ?case using Cons.IH [of "resume i s"] by simp
qed

subsection \<open>Calls of the original resolver: invariant\<close>

lemma began_by_simps [simp]:
  "began_by j [] = False"
  "began_by j (tr @ tr') \<longleftrightarrow> began_by j tr \<or> began_by j tr'"
  "began_by j (Began_global_run i # tr) \<longleftrightarrow> i = j \<or> began_by j tr"
  "began_by j (Called_global i n # tr) = began_by j tr"
  "began_by j (Called_local i n # tr) = began_by j tr"
  "began_by j (Called_resolve i # tr) = began_by j tr"
  by (auto simp: began_by_def)

lemma passes_closure: "same_closure t' t \<Longrightarrow> passes t' = passes t"
  by (simp add: passes_def same_closure_def fun_eq_iff)

lemma step_began_others:
  assumes "k \<noteq> i"
  shows "began_by k (trace (fst (step i w t))) = began_by k (trace w)"
proof (cases "phase t")
  case Not_invoked
  show ?thesis
  proof (cases "finds_context t")
    case True
    obtain w1 t1 where s: "step i w t = validate i w1 t1 (parent_of t)"
      and w1: "trace w1 = trace w" "graphQLValidity w1 = graphQLValidity w"
      using step_invoke_found [OF Not_invoked True] by blast
    show ?thesis
      using assms
      by (simp add: s validate_trace Let_def w1 split: option.splits list.splits)
  next
    case False
    then show ?thesis
      using assms Not_invoked
      by (cases "t_edition t")
         (simp_all add: step_Not_invoked invoke_no_context call_resolve_world)
  qed
next
  case (Await_global v rest)
  then show ?thesis
    using assms
    by (simp add: step_def catch_block_world next_global_world split: sum.splits list.splits)
next
  case (Await_local v rest)
  then show ?thesis
    using assms
    by (simp add: step_def catch_block_world next_local_world split: sum.splits list.splits)
next
  case Await_resolve
  then show ?thesis
    by (simp add: step_def catch_block_world finish_world split: sum.splits)
next
  case (Settled r)
  then show ?thesis by (simp add: step_def)
qed

lemma resolve_ok_other_step:
  assumes "k \<noteq> i" and "resolve_ok k w u"
  shows "resolve_ok k (fst (step i w t)) u"
proof -
  have "selected (fst (step i w t)) u = selected w u"
    by (rule selected_cong) (simp_all add: step_definitions same_closure_def)
  then have "validators_before k (fst (step i w t)) u = validators_before k w u"
    by (simp add: validators_before_def step_began_others [OF assms(1)] global_validators_step)
  then show ?thesis
    using assms(2) step_trace_others [OF assms(1), of w t] step_began_others [OF assms(1), of w t]
    by (simp add: resolve_ok_def global_validators_step cong: phase.case_cong sum.case_cong)
qed

lemma no_prefix: "\<exists>pre. xs = pre @ xs \<and> list_all P pre"
  by (rule exI [of _ "[]"]) simp

lemma longer_prefix:
  assumes "ys = pre @ v # x # xs" and "list_all P pre" and "P v"
  shows "\<exists>pre'. ys = pre' @ x # xs \<and> list_all P pre'"
  using assms by (intro exI [of _ "pre @ [v]"]) simp

lemma resolve_ok_own_step:
  assumes "calls_ok i w t" and "resolve_ok i w t"
  shows "resolve_ok i (fst (step i w t)) (snd (step i w t))"
proof -
  let ?w = "fst (step i w t)" and ?t = "snd (step i w t)"
  have fc: "finds_context ?t = finds_context t"
    by (rule finds_context_step)
  have sel: "selected ?w ?t = selected w t"
    by (rule selected_cong) (simp_all add: step_definitions step_closure)
  have gv: "global_validators ?w = global_validators w"
    by (rule global_validators_step)
  have pas: "passes ?t = passes t"
    by (rule passes_closure) (rule step_closure)
  have keep: "validators ?t = validators t" if "phase t \<noteq> Not_invoked"
    using step_locals [of t i w] that by (simp add: same_locals_def)
  have rejected: ?thesis
    if "step i w t = catch_block w t e"
      and "resolve_calls i (trace w) =
             (if list_all (passes t) (validators_before i w t) then 1 else 0)" for e
  proof -
    obtain e' where "phase (snd (catch_block w t e)) = Settled (Inl e')"
      using catch_block_phase [of w t e] by blast
    then have ph: "phase ?t = Settled (Inl e')"
      using that(1) by simp
    have tr: "trace ?w = trace w"
      using that(1) by (simp add: catch_block_world)
    show ?thesis
      using that(2)
      unfolding resolve_ok_def validators_before_def sel gv pas fc tr ph by simp
  qed
  show ?thesis
  proof (cases "phase t")
    case Not_invoked
    have b0: "\<not> began_by i (trace w)"
      using assms(2) Not_invoked by (simp add: resolve_ok_def)
    show ?thesis
    proof (cases "finds_context t")
      case True
      obtain w1 t1 where s: "step i w t = validate i w1 t1 (parent_of t)"
        and w1: "trace w1 = trace w" "graphQLValidity w1 = graphQLValidity w"
          "FieldValidationDefinitions w1 = FieldValidationDefinitions w"
          "t_field_type t1 = t_field_type t" "t_field_name t1 = t_field_name t"
        using step_invoke_found [OF Not_invoked True] by blast
      have gv1: "global_validators w1 = global_validators w"
        using w1 by (simp add: global_validators_def)
      have vals: "fst (getValidators (FieldValidationDefinitions w1) (t_field_type t1)
                    (t_field_name t1) (parent_of t)) = selected w t"
        using w1 getValidators_selected [of w t] by simp
      have v: "validators ?t = selected w t"
        by (simp add: s validate_task vals)
      have tr: "trace ?w =
                  (let first = (case selected w t of
                                  [] \<Rightarrow> Called_resolve i
                                | v # vs \<Rightarrow> Called_local i (vname v))
                   in case globalValidationResults (graphQLValidity w) of
                        None \<Rightarrow>
                          trace w @ [Began_global_run i,
                                     case global_validators w of
                                       [] \<Rightarrow> first
                                     | g # gs \<Rightarrow> Called_global i (vname g)]
                      | Some r \<Rightarrow> trace w @ [first])"
        unfolding s validate_trace vals gv1 w1 by (simp add: getValidators_selected)
      have ph: "phase ?t =
                  (let local = (case selected w t of
                                  [] \<Rightarrow> Await_resolve
                                | v # vs \<Rightarrow> Await_local v vs)
                   in case globalValidationResults (graphQLValidity w) of
                        None \<Rightarrow> (case global_validators w of
                                   [] \<Rightarrow> local
                                 | g # gs \<Rightarrow> Await_global g gs)
                      | Some r \<Rightarrow> local)"
        unfolding s validate_phase vals gv1 w1 by (simp add: getValidators_selected)
      show ?thesis
        using True b0 v no_prefix [of _ "passes t"]
        unfolding resolve_ok_def validators_before_def sel gv pas fc tr ph
        by (simp add: Let_def split: option.splits list.splits)
    next
      case False
      then show ?thesis
        using Not_invoked fc
        by (cases "t_edition t")
           (simp_all add: resolve_ok_def validators_before_def step_Not_invoked
              invoke_no_context call_resolve_eq)
    qed
  next
    case (Await_global v rest)
    then have c: "finds_context t" "resolve_calls i (trace w) = 0" "validators t = selected w t"
      using assms(1) by (simp_all add: calls_ok_def)
    have b: "began_by i (trace w)"
      using assms(2) Await_global by (simp add: resolve_ok_def)
    obtain pre where pre: "global_validators w = pre @ v # rest" "list_all (passes t) pre"
      using assms(2) Await_global by (auto simp: resolve_ok_def)
    show ?thesis
    proof (cases "vcall v (t_args t)")
      case (Inl e)
      have "\<not> passes t v" using Inl by (simp add: passes_def)
      then have "\<not> list_all (passes t) (validators_before i w t)"
        using c(1) b pre(1) by (simp add: validators_before_def)
      then show ?thesis
        using Await_global Inl c(2) by (intro rejected [of e]) (simp_all add: step_def)
    next
      case (Inr rs)
      have pv: "passes t v" using Inr by (simp add: passes_def)
      have tr: "trace ?w =
                  trace w @ [case rest of
                               [] \<Rightarrow> (case validators t of
                                        [] \<Rightarrow> Called_resolve i
                                      | v # vs' \<Rightarrow> Called_local i (vname v))
                             | g # gs \<Rightarrow> Called_global i (vname g)]"
        and ph: "phase ?t =
                  (case rest of
                     [] \<Rightarrow> (case validators t of
                              [] \<Rightarrow> Await_resolve
                            | v # vs' \<Rightarrow> Await_local v vs')
                   | v # vs' \<Rightarrow> Await_global v vs')"
        using Await_global Inr
        by (simp_all add: step_def next_global_world next_global_phase)
      have k: "validators ?t = validators t"
        using keep Await_global by simp
      show ?thesis
      proof (cases rest)
        case (Cons g gs)
        have "\<exists>pre'. global_validators w = pre' @ g # gs \<and> list_all (passes t) pre'"
          using pre pv unfolding Cons by (rule longer_prefix)
        then show ?thesis
          using b unfolding resolve_ok_def gv pas tr ph Cons by simp
      next
        case Nil
        have all: "list_all (passes t) (global_validators w)"
          using pre pv by (simp add: Nil)
        show ?thesis
        proof (cases "validators t")
          case Nil' : Nil
          then show ?thesis
            using all c b
            unfolding resolve_ok_def validators_before_def sel gv pas fc tr ph Nil
            by simp
        next
          case (Cons x xs)
          then show ?thesis
            using all no_prefix [of "x # xs" "passes t"]
            unfolding resolve_ok_def gv pas tr ph Nil k by simp
        qed
      qed
    qed
  next
    case (Await_local v rest)
    then have c: "finds_context t" "resolve_calls i (trace w) = 0" "validators t = selected w t"
      using assms(1) by (simp_all add: calls_ok_def)
    have g: "began_by i (trace w) \<longrightarrow> list_all (passes t) (global_validators w)"
      using assms(2) Await_local by (simp add: resolve_ok_def)
    obtain pre where pre: "validators t = pre @ v # rest" "list_all (passes t) pre"
      using assms(2) Await_local by (auto simp: resolve_ok_def)
    show ?thesis
    proof (cases "vcall v (t_args t)")
      case (Inl e)
      have "\<not> passes t v" using Inl by (simp add: passes_def)
      moreover have "selected w t = pre @ v # rest"
        using pre(1) c(3) by simp
      ultimately have "\<not> list_all (passes t) (validators_before i w t)"
        using c(1) by (simp add: validators_before_def)
      then show ?thesis
        using Await_local Inl c(2) by (intro rejected [of e]) (simp_all add: step_def)
    next
      case (Inr rs)
      have pv: "passes t v" using Inr by (simp add: passes_def)
      have tr: "trace ?w =
                  trace w @ [case rest of
                               [] \<Rightarrow> Called_resolve i
                             | v # vs' \<Rightarrow> Called_local i (vname v)]"
        and ph: "phase ?t = (case rest of [] \<Rightarrow> Await_resolve | v # vs' \<Rightarrow> Await_local v vs')"
        using Await_local Inr
        by (simp_all add: step_def next_local_world next_local_phase)
      have k: "validators ?t = validators t"
        using keep Await_local by simp
      show ?thesis
      proof (cases rest)
        case (Cons x xs)
        have "\<exists>pre'. validators t = pre' @ x # xs \<and> list_all (passes t) pre'"
          using pre pv unfolding Cons by (rule longer_prefix)
        then show ?thesis
          using g unfolding resolve_ok_def gv pas tr ph Cons k by simp
      next
        case Nil
        have "selected w t = pre @ [v]"
          using pre(1) c(3) by (simp add: Nil)
        then have "list_all (passes t) (selected w t)"
          using pre(2) pv by simp
        then show ?thesis
          using g c(1)
          unfolding resolve_ok_def validators_before_def sel gv pas fc tr ph Nil
          by simp
      qed
    qed
  next
    case Await_resolve
    then have c: "resolve_calls i (trace w) = 1"
      using assms(1) by (simp add: calls_ok_def)
    have a: "list_all (passes t) (validators_before i w t)"
      using assms(2) Await_resolve by (simp add: resolve_ok_def)
    show ?thesis
    proof (cases "t_resolve t (t_args t)")
      case (Inl e)
      then show ?thesis
        using Await_resolve c a by (intro rejected [of e]) (simp_all add: step_def)
    next
      case (Inr out)
      have tr: "trace ?w = trace w" and ph: "\<exists>x. phase ?t = Settled (Inr x)"
        using Await_resolve Inr by (simp_all add: step_def finish_world finish_phase)
      obtain x where x: "phase ?t = Settled (Inr x)" using ph by blast
      show ?thesis
        using a unfolding resolve_ok_def validators_before_def sel gv pas fc tr x by simp
    qed
  next
    case (Settled r)
    then show ?thesis using assms(2) by (simp add: step_def)
  qed
qed

lemma resolve_invariant_resume:
  assumes "calls_invariant s" and "resolve_invariant s"
  shows "resolve_invariant (resume i s)"
proof (cases "i < length (snd s)")
  case False
  then show ?thesis using assms(2) by (simp add: resume_out_of_range)
next
  case True
  obtain w ts where s: "s = (w, ts)" by (cases s)
  have i: "i < length ts" using True by (simp add: s)
  have "resolve_ok k (fst (step i w (ts ! i))) (ts[i := snd (step i w (ts ! i))] ! k)"
    if "k < length ts" for k
  proof (cases "k = i")
    case True
    then show ?thesis
      using assms i resolve_ok_own_step [of i w "ts ! i"]
      by (simp add: calls_invariant_def resolve_invariant_def s)
  next
    case False
    then show ?thesis
      using assms(2) that resolve_ok_other_step [of k i w "ts ! k" "ts ! i"]
      by (simp add: resolve_invariant_def s)
  qed
  then show ?thesis
    using i by (simp add: resolve_invariant_def s resume_eq)
qed

lemma resolve_invariant_exec:
  "calls_invariant s \<Longrightarrow> resolve_invariant s \<Longrightarrow> resolve_invariant (exec sched s)"
  by (induction sched arbitrary: s)
     (simp_all add: calls_invariant_resume resolve_invariant_resume)

lemma fresh_request_resolve: "fresh_request s \<Longrightarrow> resolve_invariant s"
  by (simp add: fresh_request_def resolve_invariant_def resolve_ok_def)

lemma original_called_once_run:
  assumes "fresh_request s" and "j < length (snd s)"
  shows "resolve_calls j (trace (fst (exec sched s))) \<le> 1
       \<and> (phase (snd (exec sched s) ! j) = Await_resolve
            \<or> (\<exists>x. phase (snd (exec sched s) ! j) = Settled (Inr x)) \<longrightarrow>
          resolve_calls j (trace (fst (exec sched s))) = 1)
       \<and> (settled (snd (exec sched s) ! j) \<longrightarrow>
          resolve_calls j (trace (fst (exec sched s))) =
            (if list_all (passes (snd (exec sched s) ! j))
                  (validators_before j (fst (exec sched s)) (snd (exec sched s) ! j))
             then 1 else 0))"
proof -
  let ?s = "exec sched s"
  let ?t = "snd ?s ! j"
  have c: "calls_ok j (fst ?s) ?t"
    using assms(1,2) calls_invariant_exec [OF fresh_request_calls, of s sched]
    by (simp add: calls_invariant_def)
  have r: "resolve_ok j (fst ?s) ?t"
    using assms(1,2)
      resolve_invariant_exec [OF fresh_request_calls fresh_request_resolve, of s sched]
    by (simp add: resolve_invariant_def)
  show ?thesis
    using c r
    by (cases "phase ?t")
       (auto simp: calls_ok_def resolve_ok_def settled_def split: sum.splits if_splits)
qed

subsection \<open>Progress\<close>

text \<open>
  Every invocation settles: the lists of validators are finite and each step of a task
  that has been invoked and is not settled brings it closer to its end.
\<close>

lemma step_leaves_start: "phase (snd (step i w t)) \<noteq> Not_invoked"
proof (cases "phase t")
  case Not_invoked
  show ?thesis
  proof (cases "finds_context t")
    case True
    obtain w1 t1 where "step i w t = validate i w1 t1 (parent_of t)"
      using step_invoke_found [OF Not_invoked True] by blast
    then show ?thesis
      by (simp add: validate_phase Let_def split: option.splits list.splits)
  next
    case False
    then show ?thesis
      using Not_invoked
      by (cases "t_edition t")
         (simp_all add: step_Not_invoked invoke_no_context call_resolve_eq)
  qed
next
  case (Await_global v rest)
  then show ?thesis
    by (simp add: step_def next_global_phase split: sum.splits list.splits)
next
  case (Await_local v rest)
  then show ?thesis
    by (simp add: step_def next_local_phase split: sum.splits list.splits)
next
  case Await_resolve
  then show ?thesis
    by (simp add: step_def finish_phase split: sum.splits)
next
  case (Settled r)
  then show ?thesis by (simp add: step_def)
qed

lemma step_decreases:
  assumes "phase t \<noteq> Not_invoked" and "\<not> settled t"
  shows "remaining (snd (step i w t)) < remaining t"
proof -
  have keep: "validators (snd (step i w t)) = validators t"
    using step_locals [OF assms(1), of i w] by (simp add: same_locals_def)
  have rejected: ?thesis if "step i w t = catch_block w t e" for e
  proof -
    obtain e' where "phase (snd (catch_block w t e)) = Settled (Inl e')"
      using catch_block_phase by blast
    then show ?thesis
      using that assms by (cases "phase t") (simp_all add: remaining_def settled_def)
  qed
  show ?thesis
  proof (cases "phase t")
    case Not_invoked
    then show ?thesis using assms by simp
  next
    case (Await_global v rest)
    show ?thesis
    proof (cases "vcall v (t_args t)")
      case (Inl e)
      then show ?thesis using Await_global by (intro rejected [of e]) (simp add: step_def)
    next
      case (Inr rs)
      have "phase (snd (step i w t)) =
              (case rest of
                 [] \<Rightarrow> (case validators t of
                          [] \<Rightarrow> Await_resolve
                        | v # vs' \<Rightarrow> Await_local v vs')
               | v # vs' \<Rightarrow> Await_global v vs')"
        using Await_global Inr by (simp add: step_def next_global_phase)
      then show ?thesis
        using Await_global keep
        by (simp add: remaining_def split: list.splits)
    qed
  next
    case (Await_local v rest)
    show ?thesis
    proof (cases "vcall v (t_args t)")
      case (Inl e)
      then show ?thesis using Await_local by (intro rejected [of e]) (simp add: step_def)
    next
      case (Inr rs)
      have "phase (snd (step i w t)) =
              (case rest of [] \<Rightarrow> Await_resolve | v # vs' \<Rightarrow> Await_local v vs')"
        using Await_local Inr by (simp add: step_def next_local_phase)
      then show ?thesis
        using Await_local by (simp add: remaining_def split: list.splits)
    qed
  next
    case Await_resolve
    show ?thesis
    proof (cases "t_resolve t (t_args t)")
      case (Inl e)
      then show ?thesis using Await_resolve by (intro rejected [of e]) (simp add: step_def)
    next
      case (Inr out)
      then show ?thesis
        using Await_resolve by (simp add: step_def finish_phase remaining_def)
    qed
  next
    case (Settled r)
    then show ?thesis using assms by (simp add: settled_def)
  qed
qed

lemma resume_own:
  "i < length (snd s) \<Longrightarrow> snd (resume i s) ! i = snd (step i (fst s) (snd s ! i))"
  by (cases s) (simp add: resume_eq)

lemma invoked_task_settles:
  assumes "i < length (snd s)" and "phase (snd s ! i) \<noteq> Not_invoked"
  shows "\<exists>n. settled (snd (exec (replicate n i) s) ! i)"
  using assms
proof (induction "remaining (snd s ! i)" arbitrary: s rule: less_induct)
  case less
  show ?case
  proof (cases "settled (snd s ! i)")
    case True
    then have "settled (snd (exec (replicate 0 i) s) ! i)" by simp
    then show ?thesis by blast
  next
    case False
    let ?s = "resume i s"
    have own: "snd ?s ! i = snd (step i (fst s) (snd s ! i))"
      using less.prems(1) by (rule resume_own)
    have "remaining (snd ?s ! i) < remaining (snd s ! i)"
      unfolding own using less.prems(2) False by (rule step_decreases)
    moreover have "i < length (snd ?s)" using less.prems(1) by simp
    moreover have "phase (snd ?s ! i) \<noteq> Not_invoked"
      unfolding own by (rule step_leaves_start)
    ultimately obtain n where "settled (snd (exec (replicate n i) ?s) ! i)"
      using less.hyps by blast
    then have "settled (snd (exec (replicate (Suc n) i) s) ! i)" by simp
    then show ?thesis by blast
  qed
qed

lemma task_settles:
  assumes "i < length (snd s)"
  shows "\<exists>n. settled (snd (exec (replicate n i) s) ! i)"
proof (cases "phase (snd s ! i) = Not_invoked")
  case False
  then show ?thesis using assms by (rule invoked_task_settles [rotated])
next
  case True
  let ?s = "resume i s"
  have "phase (snd ?s ! i) \<noteq> Not_invoked"
    using assms True by (simp add: resume_own step_leaves_start)
  moreover have "i < length (snd ?s)" using assms by simp
  ultimately obtain n where "settled (snd (exec (replicate n i) ?s) ! i)"
    using invoked_task_settles by blast
  then have "settled (snd (exec (replicate (Suc n) i) s) ! i)" by simp
  then show ?thesis by blast
qed

subsection \<open>The selection of the local validators\<close>




text \<open>
  The simplified edition in the second document of schema-wrapper.ts selects differently
  (it has no \<open>*\<close> selector and takes the first registered list only); it keeps no
  request context, so C2 does not speak about it.
\<close>

lemma simplified_selection_short_circuits:
  "map vname (simplified_validators example_definitions ''TypeX'' ''field'' ''Parent'') =
     [''byType'']"
  by (simp add: simplified_validators_def example_definitions_def reports_def)

subsection \<open>Wrapping\<close>

lemma wrapField_other: "b \<noteq> a \<Longrightarrow> wrapField ed a c p h b = h b"
  by (simp add: wrapField_def Let_def split: option.splits)

lemma wrapField_noop: "\<not> wrappable ed (h a) \<Longrightarrow> wrapField ed a c p h = h"
  by (auto simp: wrapField_def wrappable_def Let_def split: option.splits)

lemma wrapField_fresh:
  assumes "resolve (h a) = Some r" and "\<not> Processed (h a) ed"
  shows "wrapField ed a c p h a =
           (h a)\<lparr>resolve := Some (Wrapped ed c (field_type (h a)) (field_name (h a))
                                   (case ed of
                                      Schema_wrapper \<Rightarrow>
                                        if truthy p then p else config_parentTypeName c
                                    | Index \<Rightarrow> None) r),
                 Processed := (Processed (h a))(ed := True)\<rparr>"
  using assms by (simp add: wrapField_def Let_def)

lemma wrapField_once:
  assumes "wrappable ed (h a)"
  shows "wrapped_once ed (h a) (wrapField ed a c p h a)"
proof -
  obtain r where "resolve (h a) = Some r" and "\<not> Processed (h a) ed"
    using assms by (auto simp: wrappable_def)
  then show ?thesis
    unfolding wrapped_once_def by (intro exI conjI) (assumption, rule wrapField_fresh)
qed

lemma wrapped_once_done: "wrapped_once ed f f' \<Longrightarrow> \<not> wrappable ed f'"
  by (auto simp: wrapped_once_def wrappable_def)

lemma wrap_refs_snoc: "wrap_refs ed (ps @ [(a, c, p)]) h = wrapField ed a c p (wrap_refs ed ps h)"
  by (simp add: wrap_refs_def)

lemma wrap_refs_append: "wrap_refs ed (ps @ qs) h = wrap_refs ed qs (wrap_refs ed ps h)"
  by (simp add: wrap_refs_def)

lemma wrap_refs_result:
  "(a \<in> fst ` set ps \<and> wrappable ed (h a) \<longrightarrow> wrapped_once ed (h a) (wrap_refs ed ps h a))
 \<and> (\<not> (a \<in> fst ` set ps \<and> wrappable ed (h a)) \<longrightarrow> wrap_refs ed ps h a = h a)"
proof (induction ps rule: rev_induct)
  case Nil
  then show ?case by (simp add: wrap_refs_def)
next
  case (snoc x ps)
  obtain b c p where x: "x = (b, c, p)" by (cases x)
  let ?h = "wrap_refs ed ps h"
  show ?case
  proof (cases "a = b")
    case False
    then show ?thesis
      using snoc by (simp add: x wrap_refs_snoc wrapField_other)
  next
    case True
    show ?thesis
    proof (cases "wrappable ed (h a)")
      case w: True
      show ?thesis
      proof (cases "a \<in> fst ` set ps")
        case True
        then have "wrapped_once ed (h a) (?h a)" using snoc w by simp
        then have "wrapField ed a c p ?h = ?h" "wrapped_once ed (h a) (?h a)"
          by (simp_all add: wrapped_once_done wrapField_noop)
        then show ?thesis using w \<open>a = b\<close> by (simp add: x wrap_refs_snoc)
      next
        case False
        then have "?h a = h a" using snoc by simp
        then have "wrapped_once ed (h a) (wrapField ed a c p ?h a)"
          using w wrapField_once [of ed ?h a c p] by simp
        then show ?thesis using w \<open>a = b\<close> by (simp add: x wrap_refs_snoc)
      qed
    next
      case False
      then have "?h a = h a" using snoc by simp
      then have "wrapField ed a c p ?h = ?h" using False by (simp add: wrapField_noop)
      then show ?thesis using False \<open>?h a = h a\<close> \<open>a = b\<close> by (simp add: x wrap_refs_snoc)
    qed
  qed
qed

lemma wrapType_steps: "wrapType ed ty c h = wrap_refs ed (type_steps ed ty c) h"
proof -
  have "foldl (\<lambda>h (fieldName, a). wrapField ed a c p h) h fs =
          foldl (\<lambda>h (a, c, p). wrapField ed a c p h) h (map (\<lambda>a. (a, c, p)) (map snd fs))"
    for fs :: "(string \<times> ref) list" and p h
    by (induction fs arbitrary: h) (simp_all add: split_beta)
  then show ?thesis
    by (simp add: wrapType_def wrap_refs_def type_steps_def type_targets_def split: option.splits)
qed

lemma wrapSchema_steps:
  "wrapSchema ed s c h = wrap_refs ed (steps_of ed (GraphQLSchema s) c) h"
proof (induction s arbitrary: h)
  case Nil
  then show ?case by (simp add: wrapSchema_def wrap_refs_def)
next
  case (Cons x s)
  obtain n ty where x: "x = (n, ty)" by (cases x)
  have "wrapSchema ed (x # s) c h = wrapSchema ed s c (wrapType ed ty c h)"
    by (simp add: wrapSchema_def x)
  then show ?case
    using Cons [of "wrapType ed ty c h"]
    by (simp add: x wrapType_steps wrap_refs_append)
qed

lemma wrapResolvers_steps:
  "wrapResolvers ed ent c h = wrap_refs ed (steps_of ed ent (default_config ed c)) h"
  by (cases ent)
     (simp_all add: wrapResolvers_def wrapSchema_steps wrapType_steps, simp add: wrap_refs_def)

lemma steps_of_targets: "map fst (steps_of ed ent c) = targets ed ent"
proof (cases ent)
  case (GraphQLSchema s)
  have "map fst (concat (map (\<lambda>(typeName, ty). type_steps ed ty c) s)) =
          concat (map (\<lambda>(typeName, ty). type_targets ed ty) s)"
    by (induction s) (auto simp: type_steps_def comp_def)
  then show ?thesis by (simp add: GraphQLSchema)
qed (simp_all add: type_steps_def comp_def)

lemma wrap_all_steps:
  "wrap_all ed calls h =
     wrap_refs ed (concat (map (\<lambda>(ent, c). steps_of ed ent (default_config ed c)) calls)) h"
proof (induction calls arbitrary: h)
  case Nil
  then show ?case by (simp add: wrap_all_def wrap_refs_def)
next
  case (Cons x calls)
  obtain ent c where x: "x = (ent, c)" by (cases x)
  have "wrap_all ed (x # calls) h = wrap_all ed calls (wrapResolvers ed ent c h)"
    by (simp add: wrap_all_def x)
  then show ?case
    using Cons [of "wrapResolvers ed ent c h"]
    by (simp add: x wrapResolvers_steps wrap_refs_append)
qed

lemma reached_steps:
  "fst ` set (concat (map (\<lambda>(ent, c). steps_of ed ent (default_config ed c)) calls)) =
     set (reached ed calls)"
proof -
  have "map fst (concat (map (\<lambda>(ent, c). steps_of ed ent (default_config ed c)) calls)) =
          reached ed calls"
    by (induction calls) (auto simp: reached_def steps_of_targets)
  then show ?thesis by (metis set_map)
qed

lemma wrap_all_result:
  "(a \<in> set (reached ed calls) \<and> wrappable ed (h a) \<longrightarrow>
      wrapped_once ed (h a) (wrap_all ed calls h a))
 \<and> (\<not> (a \<in> set (reached ed calls) \<and> wrappable ed (h a)) \<longrightarrow> wrap_all ed calls h a = h a)"
  using wrap_refs_result [of a "concat (map (\<lambda>(ent, c). steps_of ed ent (default_config ed c)) calls)" ed h]
  unfolding wrap_all_steps reached_steps .

lemma wrap_refs_noop:
  "\<forall>a\<in>fst ` set ps. \<not> wrappable ed (h a) \<Longrightarrow> wrap_refs ed ps h = h"
proof (induction ps rule: rev_induct)
  case Nil
  then show ?case by (simp add: wrap_refs_def)
next
  case (snoc x ps)
  obtain b c p where x: "x = (b, c, p)" by (cases x)
  have "wrap_refs ed ps h = h" using snoc by simp
  moreover have "\<not> wrappable ed (h b)" using snoc.prems by (simp add: x)
  ultimately show ?case by (simp add: x wrap_refs_snoc wrapField_noop)
qed

lemma wrap_all_done:
  assumes "a \<in> set (reached ed calls)"
  shows "\<not> wrappable ed (wrap_all ed calls h a)"
  using assms wrap_all_result [of a ed calls h] wrapped_once_done by (cases "wrappable ed (h a)") auto

lemma wrapResolvers_again:
  assumes "set (targets ed ent) \<subseteq> set (reached ed calls)"
  shows "wrapResolvers ed ent c (wrap_all ed calls h) = wrap_all ed calls h"
proof -
  have "fst ` set (steps_of ed ent (default_config ed c)) = set (targets ed ent)"
    by (metis steps_of_targets set_map)
  then have "\<forall>a\<in>fst ` set (steps_of ed ent (default_config ed c)).
               \<not> wrappable ed (wrap_all ed calls h a)"
    using assms wrap_all_done by blast
  then show ?thesis
    unfolding wrapResolvers_steps by (rule wrap_refs_noop)
qed

lemma wrapResolvers_idem:
  "wrapResolvers ed ent c' (wrapResolvers ed ent c h) = wrapResolvers ed ent c h"
  using wrapResolvers_again [of ed ent "[(ent, c)]" c' h]
  by (simp add: wrap_all_def reached_def)

lemma wrapped_once_layers: "wrapped_once ed f f' \<Longrightarrow> field_layers f' = Suc (field_layers f)"
  by (auto simp: wrapped_once_def field_layers_def)

lemma wrapField_at: "h' a = h a \<Longrightarrow> wrapField ed a c p h' a = wrapField ed a c p h a"
  by (simp add: wrapField_def Let_def split: option.splits)

lemma wrap_refs_uniform:
  assumes "\<forall>x\<in>set ps. snd x = (c, p)" and "b \<in> fst ` set ps"
  shows "wrap_refs ed ps h b = wrapField ed b c p h b"
  using assms
proof (induction ps rule: rev_induct)
  case Nil
  then show ?case by simp
next
  case (snoc x ps)
  obtain b' where x: "x = (b', c, p)"
    using snoc.prems(1) by (cases x) auto
  let ?h = "wrap_refs ed ps h"
  have u: "\<forall>x\<in>set ps. snd x = (c, p)" using snoc.prems(1) by simp
  show ?case
  proof (cases "b' = b")
    case False
    then have "b \<in> fst ` set ps" using snoc.prems(2) by (auto simp: x)
    then show ?thesis
      using snoc.IH [OF u] False by (simp add: x wrap_refs_snoc wrapField_other)
  next
    case True
    show ?thesis
    proof (cases "b \<in> fst ` set ps")
      case False
      then have "?h b = h b"
        using wrap_refs_result [of b ps ed h] by simp
      then have "wrapField ed b c p ?h b = wrapField ed b c p h b"
        by (rule wrapField_at)
      then show ?thesis
        using True by (simp add: x wrap_refs_snoc)
    next
      case in_ps: True
      have eq: "?h b = wrapField ed b c p h b"
        using snoc.IH [OF u in_ps] .
      have "\<not> wrappable ed (?h b)"
        using wrap_refs_result [of b ps ed h] in_ps wrapped_once_done [of ed "h b" "?h b"]
        by (cases "wrappable ed (h b)") auto
      then have "wrapField ed b c p ?h = ?h"
        by (rule wrapField_noop)
      then show ?thesis
        using True eq by (simp add: x wrap_refs_snoc)
    qed
  qed
qed

lemma wrapType_field:
  assumes "getFields ty = Some fs" and "\<not> type_Processed ty ed" and "(n, b) \<in> set fs"
  shows "wrapType ed ty c h b = wrapField ed b c (Some (type_name ty)) h b"
proof -
  have "b \<in> fst ` set (type_steps ed ty c)"
    using assms by (force simp: type_steps_def type_targets_def image_iff)
  moreover have "\<forall>x\<in>set (type_steps ed ty c). snd x = (c, Some (type_name ty))"
    by (auto simp: type_steps_def)
  ultimately show ?thesis
    unfolding wrapType_steps by (intro wrap_refs_uniform)
qed

lemma wrapped_twice_eq:
  "wrapped_twice =
     \<lparr>field_name = ''field'', field_type = ''TypeX'',
      resolve = Some (Wrapped Schema_wrapper example_config ''TypeX'' ''field'' (Some ''Parent'')
                        (Plain data_and_errors)),
      Processed = (\<lambda>ed. False)(Schema_wrapper := True)\<rparr>"
  by (simp add: wrapped_twice_def wrap_defs example_defs)

lemma rejecting_validator_eq:
  "rejecting_validator =
     (example_world\<lparr>FieldValidationDefinitions := [''*'' \<mapsto> [throws ''v'' ''no'']]\<rparr>,
      [(task_of Schema_wrapper example_config data_and_errors example_args)])"
  by (simp add: rejecting_validator_def wrapped_twice_eq task_of_def)

lemma wrapped_field_request_eq:
  "wrapped_field_request =
     (example_world, [(task_of Schema_wrapper example_config data_and_errors example_args)])"
  by (simp add: wrapped_field_request_def wrapped_twice_eq task_of_def)

lemma resolver_throws_run:
  "map phase (snd (exec [0, 0, 0, 0, 0, 0] resolver_throws)) =
     [Settled (Inl (Error ''An internal error occured, with following id:x, please contact Administrator!'' []))]"
  "trace (fst (exec [0, 0, 0, 0, 0, 0] resolver_throws)) =
     [Began_global_run 0, Called_global 0 ''global'', Called_local 0 ''every'',
      Called_local 0 ''byType'', Called_local 0 ''byField'', Called_resolve 0]"
  "map t_args (snd (exec [0, 0, 0, 0, 0, 0] resolver_throws)) = [example_args]"
  "map finds_context (snd (exec [0, 0, 0, 0, 0, 0] resolver_throws)) = [True]"
  by (simp_all add: resolver_throws_def example_defs run_defs onUnhandledError_eq
        internal_error_message_def finds_context_def)

text \<open>
  The other module has its own marker: when it wraps a field that this module has
  wrapped, it adds its own wrapper.
\<close>

lemma other_module_wraps_again:
  assumes "ed' \<noteq> ed" and "wrappable ed (h a)" and "wrappable ed' (h a)"
  shows "field_layers (wrapField ed' a c' p' (wrapField ed a c p h) a) =
           Suc (Suc (field_layers (h a)))"
proof -
  let ?h = "wrapField ed a c p h"
  have 1: "wrapped_once ed (h a) (?h a)"
    using assms(2) by (rule wrapField_once)
  then have "wrappable ed' (?h a)"
    using assms(1,3) by (auto simp: wrapped_once_def wrappable_def)
  then have "wrapped_once ed' (?h a) (wrapField ed' a c' p' ?h a)"
    by (rule wrapField_once)
  then show ?thesis
    using 1 by (simp add: wrapped_once_layers)
qed

text \<open>
  C3 as the code has it, for the calls of one module. A call of \<open>wrapField\<close> on a
  field whose marker is set, or which has no resolver, changes nothing; on a field with a
  resolver and no marker it sets the marker and puts one wrapper around the resolver, at
  the time of the call, and \<open>wrapType\<close> does so for each field of the type, with the
  name of the type. After any sequence of calls of \<open>wrapResolvers\<close> on fields, types
  and schemas that may share fields, every field that a call reached and that had a
  resolver and no marker has exactly one wrapper more, around its original resolver, and
  every other field is as it was; a further call on an entity whose fields were all
  reached changes nothing. Calling the wrapped resolver starts a task around the
  original. In a request that starts fresh, under every interleaving, an invocation
  calls the original resolver at most once; exactly once when it has come to await it
  or has resolved; and, when it is rejected, exactly once when all the validators it
  runs before the original resolver resolve, and never when one of them throws.
\<close>

theorem wrapping_is_idempotent:
  "(\<not> wrappable ed (h a) \<longrightarrow> wrapField ed a c p h = h)
 \<and> (\<forall>r. resolve (h a) = Some r \<longrightarrow> \<not> Processed (h a) ed \<longrightarrow>
        wrapField ed a c p h =
          h(a := (h a)\<lparr>resolve := Some (Wrapped ed c (field_type (h a)) (field_name (h a))
                                          (case ed of
                                             Schema_wrapper \<Rightarrow>
                                               if truthy p then p else config_parentTypeName c
                                           | Index \<Rightarrow> None) r),
                        Processed := (Processed (h a))(ed := True)\<rparr>))
 \<and> (\<forall>fs n b. getFields ty = Some fs \<longrightarrow> \<not> type_Processed ty ed \<longrightarrow> (n, b) \<in> set fs \<longrightarrow>
        wrapType ed ty c h b = wrapField ed b c (Some (type_name ty)) h b)
 \<and> (\<forall>b. b \<in> set (reached ed calls) \<and> wrappable ed (h b) \<longrightarrow>
        (\<exists>c' p' r. resolve (h b) = Some r
           \<and> wrap_all ed calls h b =
               (h b)\<lparr>resolve := Some (Wrapped ed c' (field_type (h b)) (field_name (h b)) p' r),
                      Processed := (Processed (h b))(ed := True)\<rparr>)
      \<and> field_layers (wrap_all ed calls h b) = Suc (field_layers (h b)))
 \<and> (\<forall>b. \<not> (b \<in> set (reached ed calls) \<and> wrappable ed (h b)) \<longrightarrow>
        wrap_all ed calls h b = h b)
 \<and> (set (targets ed ent) \<subseteq> set (reached ed calls) \<longrightarrow>
        wrapResolvers ed ent cfg (wrap_all ed calls h) = wrap_all ed calls h)
 \<and> wrapResolvers ed ent cfg' (wrapResolvers ed ent cfg h) = wrapResolvers ed ent cfg h
 \<and> (\<forall>r as. resolve (h a) = Some (Plain r) \<longrightarrow> \<not> Processed (h a) ed \<longrightarrow>
        (\<exists>t. invocation (the (resolve (wrapField ed a c p h a))) as = Some t
            \<and> phase t = Not_invoked \<and> t_resolve t = r \<and> t_args t = as
            \<and> t_edition t = ed \<and> t_config t = c))
 \<and> (\<forall>s j sched. fresh_request s \<longrightarrow> j < length (snd s) \<longrightarrow>
        resolve_calls j (trace (fst (exec sched s))) \<le> 1
      \<and> (phase (snd (exec sched s) ! j) = Await_resolve
           \<or> (\<exists>x. phase (snd (exec sched s) ! j) = Settled (Inr x)) \<longrightarrow>
         resolve_calls j (trace (fst (exec sched s))) = 1)
      \<and> (settled (snd (exec sched s) ! j) \<longrightarrow>
         resolve_calls j (trace (fst (exec sched s))) =
           (if list_all (passes (snd (exec sched s) ! j))
                 (validators_before j (fst (exec sched s)) (snd (exec sched s) ! j))
            then 1 else 0)))"
proof -
  have noop: "\<not> wrappable ed (h a) \<longrightarrow> wrapField ed a c p h = h"
    by (simp add: wrapField_noop)
  have fresh: "wrapField ed a c p h =
          h(a := (h a)\<lparr>resolve := Some (Wrapped ed c (field_type (h a)) (field_name (h a))
                                          (case ed of
                                             Schema_wrapper \<Rightarrow>
                                               if truthy p then p else config_parentTypeName c
                                           | Index \<Rightarrow> None) r),
                        Processed := (Processed (h a))(ed := True)\<rparr>)"
    if "resolve (h a) = Some r" "\<not> Processed (h a) ed" for r
    using that by (simp add: wrapField_def Let_def)
  have in_type: "wrapType ed ty c h b = wrapField ed b c (Some (type_name ty)) h b"
    if "getFields ty = Some fs" "\<not> type_Processed ty ed" "(n, b) \<in> set fs" for fs n b
    using that by (rule wrapType_field)
  have once: "(\<exists>c' p' r. resolve (h b) = Some r
           \<and> wrap_all ed calls h b =
               (h b)\<lparr>resolve := Some (Wrapped ed c' (field_type (h b)) (field_name (h b)) p' r),
                      Processed := (Processed (h b))(ed := True)\<rparr>)
      \<and> field_layers (wrap_all ed calls h b) = Suc (field_layers (h b))"
    if "b \<in> set (reached ed calls) \<and> wrappable ed (h b)" for b
  proof -
    have w: "wrapped_once ed (h b) (wrap_all ed calls h b)"
      using that wrap_all_result [of b ed calls h] by blast
    then show ?thesis
      using wrapped_once_layers [OF w] unfolding wrapped_once_def by blast
  qed
  have rest: "wrap_all ed calls h b = h b"
    if "\<not> (b \<in> set (reached ed calls) \<and> wrappable ed (h b))" for b
    using that wrap_all_result [of b ed calls h] by blast
  have again: "set (targets ed ent) \<subseteq> set (reached ed calls) \<longrightarrow>
        wrapResolvers ed ent cfg (wrap_all ed calls h) = wrap_all ed calls h"
    by (simp add: wrapResolvers_again)
  have idem: "wrapResolvers ed ent cfg' (wrapResolvers ed ent cfg h) = wrapResolvers ed ent cfg h"
    by (rule wrapResolvers_idem)
  have inv: "\<exists>t. invocation (the (resolve (wrapField ed a c p h a))) as = Some t
              \<and> phase t = Not_invoked \<and> t_resolve t = r \<and> t_args t = as
              \<and> t_edition t = ed \<and> t_config t = c"
    if "resolve (h a) = Some (Plain r)" "\<not> Processed (h a) ed" for r as
    using that by (simp add: wrapField_fresh)
  have c2: "\<forall>r. resolve (h a) = Some r \<longrightarrow> \<not> Processed (h a) ed \<longrightarrow>
        wrapField ed a c p h =
          h(a := (h a)\<lparr>resolve := Some (Wrapped ed c (field_type (h a)) (field_name (h a))
                                          (case ed of
                                             Schema_wrapper \<Rightarrow>
                                               if truthy p then p else config_parentTypeName c
                                           | Index \<Rightarrow> None) r),
                        Processed := (Processed (h a))(ed := True)\<rparr>)"
    using fresh by blast
  have c3: "\<forall>fs n b. getFields ty = Some fs \<longrightarrow> \<not> type_Processed ty ed \<longrightarrow> (n, b) \<in> set fs \<longrightarrow>
        wrapType ed ty c h b = wrapField ed b c (Some (type_name ty)) h b"
    using in_type by blast
  have c4: "\<forall>b. b \<in> set (reached ed calls) \<and> wrappable ed (h b) \<longrightarrow>
        (\<exists>c' p' r. resolve (h b) = Some r
           \<and> wrap_all ed calls h b =
               (h b)\<lparr>resolve := Some (Wrapped ed c' (field_type (h b)) (field_name (h b)) p' r),
                      Processed := (Processed (h b))(ed := True)\<rparr>)
      \<and> field_layers (wrap_all ed calls h b) = Suc (field_layers (h b))"
    using once by blast
  have c5: "\<forall>b. \<not> (b \<in> set (reached ed calls) \<and> wrappable ed (h b)) \<longrightarrow>
        wrap_all ed calls h b = h b"
    using rest by blast
  have c8: "\<forall>r as. resolve (h a) = Some (Plain r) \<longrightarrow> \<not> Processed (h a) ed \<longrightarrow>
        (\<exists>t. invocation (the (resolve (wrapField ed a c p h a))) as = Some t
            \<and> phase t = Not_invoked \<and> t_resolve t = r \<and> t_args t = as
            \<and> t_edition t = ed \<and> t_config t = c)"
    using inv by blast
  have c9: "\<forall>s j sched. fresh_request s \<longrightarrow> j < length (snd s) \<longrightarrow>
        resolve_calls j (trace (fst (exec sched s))) \<le> 1
      \<and> (phase (snd (exec sched s) ! j) = Await_resolve
           \<or> (\<exists>x. phase (snd (exec sched s) ! j) = Settled (Inr x)) \<longrightarrow>
         resolve_calls j (trace (fst (exec sched s))) = 1)
      \<and> (settled (snd (exec sched s) ! j) \<longrightarrow>
         resolve_calls j (trace (fst (exec sched s))) =
           (if list_all (passes (snd (exec sched s) ! j))
                 (validators_before j (fst (exec sched s)) (snd (exec sched s) ! j))
            then 1 else 0))"
    by (intro allI impI) (rule original_called_once_run)
  show ?thesis
    by (rule conjI [OF noop conjI [OF c2 conjI [OF c3 conjI [OF c4 conjI [OF c5
          conjI [OF again conjI [OF idem conjI [OF c8 c9]]]]]]]])
qed

theorem wrapping_is_idempotent_witness:
  "wrappable Schema_wrapper (example_store 0) \<and> \<not> wrappable Schema_wrapper (example_store 1)
   \<and> reached Schema_wrapper overlapping_wraps = [0, 1, 0, 1, 0]
   \<and> field_layers (example_store 0) = 0
   \<and> field_layers (wrap_all Schema_wrapper overlapping_wraps example_store 0) = 1
   \<and> wrap_all Schema_wrapper overlapping_wraps example_store 1 = example_store 1
   \<and> wrapResolvers Schema_wrapper (GraphQLSchema example_schema) None
        (wrap_all Schema_wrapper overlapping_wraps example_store) =
       wrap_all Schema_wrapper overlapping_wraps example_store
   \<and> fresh_request wrapped_field_request
   \<and> map phase (snd (exec [0, 0, 0, 0, 0, 0] wrapped_field_request)) =
       [Settled (Inr (DataValidationResult (Num 42) (Some [[(''message'', Str ''bad'')]])))]
   \<and> resolve_calls 0 (trace (fst (exec [0, 0, 0, 0, 0, 0] wrapped_field_request))) = 1
   \<and> fresh_request resolver_throws
   \<and> map settled (snd (exec [0, 0, 0, 0, 0, 0] resolver_throws)) = [True]
   \<and> list_all (passes (snd (exec [0, 0, 0, 0, 0, 0] resolver_throws) ! 0))
        (validators_before 0 (fst (exec [0, 0, 0, 0, 0, 0] resolver_throws))
           (snd (exec [0, 0, 0, 0, 0, 0] resolver_throws) ! 0))
   \<and> resolve_calls 0 (trace (fst (exec [0, 0, 0, 0, 0, 0] resolver_throws))) = 1"
proof -
  let ?s = "exec [0, 0, 0, 0, 0, 0] wrapped_field_request"
  let ?r = "exec [0, 0, 0, 0, 0, 0] resolver_throws"
  note main = wrapping_is_idempotent [where ed = Schema_wrapper and h = example_store
      and calls = overlapping_wraps and ent = "GraphQLSchema example_schema" and cfg = None]
  have w: "wrappable Schema_wrapper (example_store 0)"
    "\<not> wrappable Schema_wrapper (example_store 1)"
    by (simp_all add: wrappable_def example_store_def example_field_def bare_field_def)
  have re: "reached Schema_wrapper overlapping_wraps = [0, 1, 0, 1, 0]"
    by (simp add: reached_def overlapping_wraps_def type_targets_def example_schema_def
          example_type_def scalar_type_def)
  have ta: "set (targets Schema_wrapper (GraphQLSchema example_schema)) \<subseteq>
              set (reached Schema_wrapper overlapping_wraps)"
    unfolding re
    by (simp add: type_targets_def example_schema_def example_type_def scalar_type_def)
  have l0: "field_layers (example_store 0) = 0"
    by (simp add: field_layers_def example_store_def example_field_def)
  have "0 \<in> set (reached Schema_wrapper overlapping_wraps) \<and> wrappable Schema_wrapper (example_store 0)"
    using w re by simp
  then have l1: "field_layers (wrap_all Schema_wrapper overlapping_wraps example_store 0) =
                   Suc (field_layers (example_store 0))"
    using main by blast
  have u: "wrap_all Schema_wrapper overlapping_wraps example_store 1 = example_store 1"
    using main w(2) by blast
  have ag: "wrapResolvers Schema_wrapper (GraphQLSchema example_schema) None
        (wrap_all Schema_wrapper overlapping_wraps example_store) =
       wrap_all Schema_wrapper overlapping_wraps example_store"
    using main ta by blast
  have f: "fresh_request wrapped_field_request"
    unfolding wrapped_field_request_eq by (simp add: fresh_request_def example_defs)
  have ph: "map phase (snd ?s) =
       [Settled (Inr (DataValidationResult (Num 42) (Some [[(''message'', Str ''bad'')]])))]"
    unfolding wrapped_field_request_eq by (simp add: example_defs run_defs)
  then have "\<exists>x. phase (snd ?s ! 0) = Settled (Inr x)"
    by (cases "snd ?s") auto
  moreover have "0 < length (snd wrapped_field_request)"
    by (simp add: wrapped_field_request_eq)
  ultimately have c: "resolve_calls 0 (trace (fst ?s)) = 1"
    using main f by blast
  have f': "fresh_request resolver_throws"
    by (simp add: fresh_request_def resolver_throws_def example_defs)
  have j': "0 < length (snd resolver_throws)"
    by (simp add: resolver_throws_def)
  have len: "length (snd ?r) = 1"
    unfolding length_exec by (simp add: resolver_throws_def)
  have nth: "phase (snd ?r ! 0) = map phase (snd ?r) ! 0" "t_args (snd ?r ! 0) = map t_args (snd ?r) ! 0"
    "finds_context (snd ?r ! 0) = map finds_context (snd ?r) ! 0"
    using len by (simp_all only: nth_map zero_less_one)
  have st: "settled (snd ?r ! 0)"
    unfolding settled_def nth(1) resolver_throws_run by simp
  have gen: "map settled ts = map (\<lambda>p. case p of Settled r \<Rightarrow> True | _ \<Rightarrow> False) (map phase ts)"
    for ts by (simp add: settled_def comp_def)
  have sts: "map settled (snd ?r) = [True]"
    unfolding gen [of "snd ?r"] resolver_throws_run by simp
  have defs: "FieldValidationDefinitions (fst ?r) = example_definitions"
    unfolding definitions_exec by (simp add: resolver_throws_def example_world_def)
  have pa: "list_all (passes (snd ?r ! 0)) (validators_before 0 (fst ?r) (snd ?r ! 0))"
    unfolding validators_before_def nth(3) resolver_throws_run global_validators_def
      selected_def defs
    by (simp add: passes_def nth(2) resolver_throws_run lookup_def or_empty_def
          example_definitions_def reports_def)
  note run = main [THEN conjunct2, THEN conjunct2, THEN conjunct2, THEN conjunct2,
      THEN conjunct2, THEN conjunct2, THEN conjunct2, THEN conjunct2, rule_format]
  have "resolve_calls 0 (trace (fst ?r)) =
          (if list_all (passes (snd ?r ! 0)) (validators_before 0 (fst ?r) (snd ?r ! 0))
           then 1 else 0)"
    using run [OF f' j', THEN conjunct2, THEN conjunct2] st by (rule mp)
  then have c': "resolve_calls 0 (trace (fst ?r)) = 1"
    by (simp only: pa if_True)
  have l1': "field_layers (wrap_all Schema_wrapper overlapping_wraps example_store 0) = 1"
    using l0 l1 by simp
  show ?thesis
    using w re l0 l1' u ag f ph c f' sts pa c' by (intro conjI)
qed

text \<open>
  C3 as stated fails in its last part: an invocation whose validator throws is rejected
  without a call of the original resolver.
\<close>

theorem original_not_called_counterexample:
  "field_layers wrapped_twice = 1
   \<and> fresh_request rejecting_validator
   \<and> map phase (snd (exec [0, 0] rejecting_validator)) =
       [Settled (Inl (Error ''An internal error occured, with following id:x, please contact Administrator!'' []))]
   \<and> trace (fst (exec [0, 0] rejecting_validator)) = [Began_global_run 0, Called_local 0 ''v'']
   \<and> resolve_calls 0 (trace (fst (exec [0, 0] rejecting_validator))) = 0
   \<and> resolve_calls 0 (trace (fst (exec [0, 0, 0, 0] rejecting_validator))) = 0"
  unfolding rejecting_validator_eq wrapped_twice_eq
  by (simp add: example_defs run_defs fresh_request_def onUnhandledError_eq
        internal_error_message_def field_layers_def)

subsection \<open>Unwrapping the output of the resolver\<close>




subsection \<open>Profiling\<close>

text \<open>
  A whole run of one invocation: the three local validators and the resolver report, the
  global validator reports, and the profile has the times read at entry, at the end of
  the validation and at the end of the execution.
\<close>

lemma one_field_run:
  "map phase (snd (exec [0, 0, 0, 0, 0, 0] one_field)) = [Settled (Inr (Num 42))]"
  "profilingData (graphQLValidity (fst (exec [0, 0, 0, 0, 0, 0] one_field))) =
     Some [\<lparr>entry_path = Some [''field''],
            entry_profile = \<lparr>profile_name = ''field'', validation = 5, execution = 15,
                              fieldsExecution = 0, totalExecution = 10\<rparr>\<rparr>]"
  "validationResults (graphQLValidity (fst (exec [0, 0, 0, 0, 0, 0] one_field))) =
     Some [[(''message'', Str ''a'')], [(''message'', Str ''b'')], [(''message'', Str ''c'')],
           [(''message'', Str ''bad'')]]"
  "globalValidationResults (graphQLValidity (fst (exec [0, 0, 0, 0, 0, 0] one_field))) =
     Some [[(''message'', Str ''g'')]]"
  by (simp_all add: one_field_def example_defs run_defs)




text \<open>
  C9. In the edition with profiling, when the original resolver has resolved, the wrapped
  resolver resolves with the effective result whatever the profiling does: it settles as
  it does with profiling disabled, with the same result lists. When the profiling fails
  because no argument had a \<open>parentType\<close> or because \<open>___profilingData\<close> is
  undefined, one line is written to the console and no record is stored.
\<close>

theorem profiling_failure_contained:
  assumes "t_edition t = Index" and "phase t = Await_resolve"
    and "t_resolve t (t_args t) = Inr out"
  shows "phase (snd (step i w t)) = Settled (Inr (effective_result out))
       \<and> phase (snd (step i w (t\<lparr>t_config := (t_config t)\<lparr>enableProfiling := False\<rparr>\<rparr>))) =
           Settled (Inr (effective_result out))
       \<and> validationResults (graphQLValidity (fst (step i w t))) =
           validationResults (graphQLValidity
             (fst (step i w (t\<lparr>t_config := (t_config t)\<lparr>enableProfiling := False\<rparr>\<rparr>))))
       \<and> globalValidationResults (graphQLValidity (fst (step i w t))) =
           globalValidationResults (graphQLValidity w)
       \<and> (found_validity t \<longrightarrow> enableProfiling (t_config t) \<longrightarrow> ast t = None \<longrightarrow>
            console (env (fst (step i w t))) =
              console (env w) @ [''Profiling failed! Cannot read property path of undefined'']
          \<and> profilingData (graphQLValidity (fst (step i w t))) =
              profilingData (graphQLValidity w))
       \<and> (found_validity t \<longrightarrow> enableProfiling (t_config t) \<longrightarrow>
          profilingData (graphQLValidity w) = None \<longrightarrow>
            (\<exists>line. console (env (fst (step i w t))) = console (env w) @ [line])
          \<and> profilingData (graphQLValidity (fst (step i w t))) = None)"
proof -
  let ?t' = "t\<lparr>t_config := (t_config t)\<lparr>enableProfiling := False\<rparr>\<rparr>"
  have 1: "step i w t = finish w t out" "step i w ?t' = finish w ?t' out"
    using assms by (simp_all add: step_def)
  have u: "unwrap w ?t' out = unwrap w t out"
    by (cases out) (simp_all add: unwrap_def)
  show ?thesis
    using assms
    apply (simp add: 1 finish_Index record_profile_frame u unwrap_frame unwrap_validationResults)
    apply (cases "ast t")
    apply (auto simp: record_profile_failed console_error_def unwrap_frame Date_now_def)
    done
qed

theorem profiling_failure_contained_witness:
  "t_edition unprofiled_task = Index \<and> phase unprofiled_task = Await_resolve
   \<and> found_validity unprofiled_task \<and> enableProfiling (t_config unprofiled_task)
   \<and> ast unprofiled_task = None
   \<and> phase (snd (step 0 example_world unprofiled_task)) = Settled (Inr (Num 42))
   \<and> console (env (fst (step 0 example_world unprofiled_task))) =
       [''Profiling failed! Cannot read property path of undefined'']
   \<and> profilingData (graphQLValidity (fst (step 0 example_world unprofiled_task))) = Some []"
proof -
  have h: "t_edition unprofiled_task = Index" "phase unprofiled_task = Await_resolve"
    "t_resolve unprofiled_task (t_args unprofiled_task) =
       Inr (DataValidationResult (Num 42) (Some [[(''message'', Str ''bad'')]]))"
    by (simp_all add: unprofiled_task_def example_defs)
  have g: "found_validity unprofiled_task" "enableProfiling (t_config unprofiled_task)"
    "ast unprofiled_task = None" "console (env example_world) = []"
    "profilingData (graphQLValidity example_world) = Some []"
    by (simp_all add: unprofiled_task_def example_defs)
  show ?thesis
    using h g profiling_failure_contained [OF h, of 0 example_world]
    by simp
qed

subsection \<open>Invocations without a context\<close>

text \<open>
  C6 as the code has it. When the scan of the arguments finds no context, the first step
  of the invocation calls the original resolver and nothing else, and leaves the context
  alone. When the resolver resolves, the wrapped resolver resolves with its output (the
  edition with profiling still replaces a \<open>DataValidationResult\<close> by its data) and
  neither the context nor the trace changes. When the resolver rejects, the wrapped
  resolver rejects with the same error if \<open>wrapErrors\<close> is false, and with the error
  returned by \<open>unhandledErrorWrapper\<close> if \<open>wrapErrors\<close> is true.
\<close>

theorem no_context_passthrough:
  assumes "phase t = Not_invoked" and "\<not> finds_context t"
  shows "phase (snd (step i w t)) = Await_resolve
       \<and> graphQLValidity (fst (step i w t)) = graphQLValidity w
       \<and> trace (fst (step i w t)) = trace w @ [Called_resolve i]
       \<and> (t_resolve t (t_args t) = Inr out \<longrightarrow>
            phase (snd (step i w' (snd (step i w t)))) =
              Settled (Inr (case t_edition t of
                              Schema_wrapper \<Rightarrow> out
                            | Index \<Rightarrow> effective_result out))
          \<and> graphQLValidity (fst (step i w' (snd (step i w t)))) = graphQLValidity w'
          \<and> trace (fst (step i w' (snd (step i w t)))) = trace w')
       \<and> (t_resolve t (t_args t) = Inl e \<longrightarrow> \<not> wrapErrors (t_config t) \<longrightarrow>
            phase (snd (step i w' (snd (step i w t)))) = Settled (Inl e)
          \<and> fst (step i w' (snd (step i w t))) = w')
       \<and> (t_resolve t (t_args t) = Inl e \<longrightarrow> wrapErrors (t_config t) \<longrightarrow>
          unhandledErrorWrapper (t_config t) = Some wrapper \<longrightarrow>
            phase (snd (step i w' (snd (step i w t)))) = Settled (Inl (fst (wrapper e (env w')))))"
proof -
  let ?t1 = "snd (step i w t)"
  have s: "same_locals ?t1 (t\<lparr>found_validity := False\<rparr>) \<or> 
           same_locals ?t1 (t\<lparr>pst := clock (env w) (clock_reads (env w)),
               ast := fst (snd (scan_args (t_args t) (False, None, None))),
               found_validity := False\<rparr>)"
    using assms call_resolve_locals
    by (simp add: step_Not_invoked invoke_no_context split: edition.splits)
  then have l: "t_edition ?t1 = t_edition t" "t_config ?t1 = t_config t" "t_resolve ?t1 = t_resolve t"
    "t_args ?t1 = t_args t" "\<not> found_validity ?t1"
    by (auto simp: same_locals_def)
  have p: "phase ?t1 = Await_resolve"
    using assms by (simp add: step_Not_invoked invoke_no_context call_resolve_eq split: edition.splits)
  have w1: "graphQLValidity (fst (step i w t)) = graphQLValidity w"
     "trace (fst (step i w t)) = trace w @ [Called_resolve i]"
    using assms by (simp_all add: step_Not_invoked invoke_no_context call_resolve_eq log_event_simps split: edition.splits)
  have ok: "step i w' ?t1 = finish w' ?t1 out" if "t_resolve t (t_args t) = Inr out"
    using that p l by (simp add: step_def)
  have bad: "step i w' ?t1 = catch_block w' ?t1 e" if "t_resolve t (t_args t) = Inl e"
    using that p l by (simp add: step_def)
  show ?thesis
    using p w1 l
    apply (intro conjI impI)
    apply (simp_all add: ok bad)
    apply (cases "t_edition t"; simp add: finish_Schema_wrapper finish_Index)
    apply (cases "t_edition t"; simp add: finish_Schema_wrapper finish_Index unwrap_not_found record_profile_not_found)
    apply (cases "t_edition t"; simp add: finish_Schema_wrapper finish_Index unwrap_not_found record_profile_not_found)
    apply (simp_all add: catch_block_def split_beta)
    done
qed

theorem no_context_passthrough_witness:
  "phase bare_task = Not_invoked \<and> \<not> finds_context bare_task
   \<and> phase (snd (step 0 example_world bare_task)) = Await_resolve
   \<and> trace (fst (step 0 example_world bare_task)) = [Called_resolve 0]
   \<and> phase (snd (step 0 example_world (snd (step 0 example_world bare_task)))) =
       Settled (Inr (Num 42))
   \<and> graphQLValidity (fst (step 0 example_world (snd (step 0 example_world bare_task)))) =
       fresh_validity"
proof -
  have h: "phase bare_task = Not_invoked" "\<not> finds_context bare_task"
    by (simp_all add: bare_task_def example_defs finds_context_def)
  have g: "t_resolve bare_task (t_args bare_task) =
             Inr (DataValidationResult (Num 42) (Some [[(''message'', Str ''bad'')]]))"
    "t_edition bare_task = Index" "trace example_world = []"
    "graphQLValidity example_world = fresh_validity"
    by (simp_all add: bare_task_def example_defs)
  show ?thesis
    using h g
      no_context_passthrough [OF h, of 0 example_world
        "DataValidationResult (Num 42) (Some [[(''message'', Str ''bad'')]])" example_world]
    by simp
qed

text \<open>
  C6 as stated fails: with \<open>wrapErrors\<close> and no context in the arguments, the error
  of the original resolver is replaced by the error of the default wrapper.
\<close>

theorem no_context_error_counterexample:
  "\<not> finds_context bare_failing_task
   \<and> wrapErrors (t_config bare_failing_task)
   \<and> t_resolve bare_failing_task (t_args bare_failing_task) = Inl (Error ''boom'' ''at resolver'')
   \<and> phase (snd (exec [0, 0] (example_world, [bare_failing_task])) ! 0) =
       Settled (Inl (Error ''An internal error occured, with following id:x, please contact Administrator!'' []))
   \<and> phase (snd (exec [0, 0] (example_world, [bare_failing_task])) ! 0) \<noteq>
       Settled (Inl (Error ''boom'' ''at resolver''))"
  by (simp add: bare_failing_task_def example_defs finds_context_def resume_def step_def
        invoke_def call_resolve_def log_event_def catch_block_def onUnhandledError_eq
        internal_error_message_def)


subsection \<open>Errors\<close>




















end
